theory Spec2Isabelle
  imports Main
begin

section \<open>Shared data model\<close>

text \<open>
  Modelled from the spec: the enumeration \<open>TaskStatus\<close> and its \<open>FINAL_STATES()\<close> are
  imported by both source files but declared elsewhere. The spec (section 3) gives
  queued/processing as non-terminal and completed, failed, aborted as terminal.
\<close>

datatype task_status = QUEUED | PROCESSING | COMPLETED | FAILED | ABORTED

definition FINAL_STATES :: "task_status list" where
  "FINAL_STATES = [COMPLETED, FAILED, ABORTED]"

text \<open>\<open>status in TaskStatus.FINAL_STATES()\<close>, where \<open>status\<close> may still be \<open>None\<close>.\<close>

definition in_final_states :: "task_status option \<Rightarrow> bool" where
  "in_final_states st = (case st of None \<Rightarrow> False | Some s \<Rightarrow> s \<in> set FINAL_STATES)"

section \<open>The local-process engine (\<open>janis_assistant/engines/shell/main.py\<close>)\<close>

text \<open>
  \<open>Shell.taskmeta\<close> is a Python dict from string keys to values of several kinds; the
  model keeps it as a map and tags each kind of value. Time stamps and job records are
  opaque here.
\<close>

datatype 'o taskmeta_value =
    MStatus task_status
  | MTime nat
  | MJobs "(string \<times> string) list"
  | MOutputs 'o

record 'o Shell =
  taskmeta :: "string \<rightharpoonup> 'o taskmeta_value"

text \<open>\<open>Shell.stop_engine\<close>: returns \<open>self\<close>, nothing else.\<close>

definition stop_engine :: "'o Shell \<Rightarrow> 'o Shell" where
  "stop_engine sh = sh"

text \<open>
  \<open>Shell.poll_task\<close>: \<open>self.taskmeta.get("status", TaskStatus.PROCESSING)\<close>. The key
  \<open>"status"\<close> only ever holds a \<open>TaskStatus\<close>; any other stored value is returned as it is
  in Python and is outside the typed model (\<open>None\<close> below).
\<close>

definition poll_task :: "'o Shell \<Rightarrow> task_status option" where
  "poll_task sh =
     (case taskmeta sh ''status'' of
        None \<Rightarrow> Some PROCESSING
      | Some (MStatus st) \<Rightarrow> Some st
      | Some _ \<Rightarrow> None)"

text \<open>
  \<open>Shell.terminate_task\<close>:
  \<^verbatim>\<open>
    self.stop_engine()
    self.taskmeta["status"] = TaskStatus.ABORTED
    return TaskStatus.ABORTED
  \<close>
\<close>

definition terminate_task :: "'o Shell \<Rightarrow> task_status \<times> 'o Shell" where
  "terminate_task sh =
     (let sh1 = stop_engine sh;
          sh2 = sh1\<lparr>taskmeta := (taskmeta sh1)(''status'' \<mapsto> MStatus ABORTED)\<rparr>
      in (ABORTED, sh2))"

text \<open>
  \<open>Shell.task_did_exit\<close>, the exit callback handed to the log watcher: it stores the final
  status, the finish time and the watcher's outputs. The progress callbacks it then
  notifies do not touch \<open>taskmeta\<close>.
\<close>

definition task_did_exit :: "nat \<Rightarrow> 'o \<Rightarrow> task_status \<Rightarrow> 'o Shell \<Rightarrow> 'o Shell" where
  "task_did_exit now logger_outputs st sh =
     sh\<lparr>taskmeta := (taskmeta sh)(''status'' \<mapsto> MStatus st,
                                   ''finish'' \<mapsto> MTime now,
                                   ''outputs'' \<mapsto> MOutputs logger_outputs)\<rparr>"

subsection \<open>The log watcher \<open>ShellLogger\<close>\<close>

text \<open>
  Strings are lists of characters; the transcripts considered are ASCII text.
  \<open>str.rstrip()\<close> removes trailing white space, \<open>str.lower()\<close> maps \<open>A\<close>..\<open>Z\<close> to
  \<open>a\<close>..\<open>z\<close>, and \<open>keyword in line\<close> is the substring test.
\<close>

definition isspace :: "char \<Rightarrow> bool" where
  "isspace c = (let n = (of_char c :: nat) in (9 \<le> n \<and> n \<le> 13) \<or> (28 \<le> n \<and> n \<le> 32))"

definition rstrip :: "string \<Rightarrow> string" where
  "rstrip s = rev (dropWhile isspace (rev s))"

definition lower_char :: "char \<Rightarrow> char" where
  "lower_char c = (let n = (of_char c :: nat) in if 65 \<le> n \<and> n \<le> 90 then char_of (n + 32) else c)"

definition lower :: "string \<Rightarrow> string" where
  "lower s = map lower_char s"

definition startswith :: "string \<Rightarrow> string \<Rightarrow> bool" where
  "startswith s p = (take (length p) s = p)"

fun contains :: "string \<Rightarrow> string \<Rightarrow> bool" where
  "contains kw [] = (kw = [])"
| "contains kw (c # cs) = (startswith (c # cs) kw \<or> contains kw cs)"

definition newline :: string where
  "newline = [CHR 0x0A]"

definition error_keywords :: "string list" where
  "error_keywords = [''error'', ''fail'', ''exception'']"

text \<open>
  One call of \<open>readline\<close> on a stream of the process, with what the watcher observes in
  that iteration: the cooperative flag \<open>should_terminate\<close>, the decoded bytes (\<open>None\<close> when
  \<open>c.decode("utf-8")\<close> raises), whether \<open>process.poll()\<close> would report an exit, and the
  clock (\<open>datetime.now()\<close>, in milliseconds).
\<close>

record read =
  rd_terminate :: bool
  rd_bytes :: "string option"
  rd_exited :: bool
  rd_now :: int

text \<open>
  A transcript of a process that exits: the reads of each stream, in order, and the
  exit code. The sentinel \<open>"b"\<close> of \<open>iter(readline, "b")\<close> never equals the bytes that
  \<open>readline\<close> returns, so a loop only ends by \<open>break\<close>, \<open>return\<close> or an exception. Once
  the listed reads are used up the stream is at its end and the process has exited:
  \<open>readline\<close> returns \<open>b""\<close> and \<open>poll()\<close> the exit code. (A read of \<open>b""\<close> while the
  process still runs is a listed read with \<open>rd_bytes = Some []\<close>.)
\<close>

record process =
  stdout :: "read list"
  stderr :: "read list"
  exit_code :: int

datatype logfp_state = NoFile | ClosedFile | OpenFile

datatype 'j outputs = EmptyDict | Parsed 'j

text \<open>
  The fields of the watcher. The log file is the handle's state together with what has
  been written: \<open>buffered\<close> holds the writes not yet flushed, \<open>durable\<close> those that were
  flushed and fsynced.
\<close>

record 'j logger =
  outputs :: "'j outputs"
  rc :: "int option"
  last_write :: int
  should_terminate :: bool
  logfp :: logfp_state
  buffered :: "string list"
  durable :: "string list"

text \<open>\<open>self.logfp.flush(); os.fsync(self.logfp.fileno())\<close> on an open file.\<close>

definition flush_fsync :: "'j logger \<Rightarrow> 'j logger" where
  "flush_fsync lg = lg\<lparr>durable := durable lg @ buffered lg, buffered := []\<rparr>"

datatype loop_exit = LoopBreak | LoopReturn | LoopRaise

text \<open>
  The loop over standard output (lines 41 to 71). \<open>json_loads\<close> is \<open>json.loads\<close>, with
  \<open>None\<close> for the exception that the source discards.
\<close>

fun stdout_loop ::
  "(string \<Rightarrow> 'j option) \<Rightarrow> int \<Rightarrow> read list \<Rightarrow> 'j logger \<Rightarrow> loop_exit \<times> 'j logger" where
  "stdout_loop json_loads code [] lg = (LoopBreak, lg\<lparr>rc := Some code\<rparr>)"
| "stdout_loop json_loads code (r # rs) lg =
     (if rd_terminate r then (LoopReturn, lg\<lparr>should_terminate := True\<rparr>)
      else case rd_bytes r of
        None \<Rightarrow> (LoopRaise, lg)
      | Some c \<Rightarrow>
          (let line = rstrip c;
               lg1 = (case json_loads line of Some v \<Rightarrow> lg\<lparr>outputs := Parsed v\<rparr> | None \<Rightarrow> lg)
           in if line = [] \<and> rd_exited r then (LoopBreak, lg1\<lparr>rc := Some code\<rparr>)
              else
                (let should_write = (rd_now r - last_write lg1 > 5000);
                     lg2 = (if logfp lg1 = OpenFile
                            then (let lg' = lg1\<lparr>buffered := buffered lg1 @ [line @ newline]\<rparr>
                                  in if should_write
                                     then flush_fsync (lg'\<lparr>last_write := rd_now r\<rparr>)
                                     else lg')
                            else lg1)
                 in stdout_loop json_loads code rs lg2)))"

text \<open>
  The loop over standard error (lines 76 to 96). A line that is empty after \<open>rstrip\<close>
  asks \<open>poll()\<close> and leaves the loop when the process has exited; any other line is
  searched for each keyword.
\<close>

definition scan_keywords :: "string \<Rightarrow> bool \<Rightarrow> bool" where
  "scan_keywords line has_error =
     foldl (\<lambda>h keyword. if contains keyword (lower line) then True else h) has_error error_keywords"

fun stderr_loop :: "int \<Rightarrow> read list \<Rightarrow> bool \<Rightarrow> 'j logger \<Rightarrow> loop_exit \<times> bool \<times> 'j logger" where
  "stderr_loop code [] has_error lg = (LoopBreak, has_error, lg\<lparr>rc := Some code\<rparr>)"
| "stderr_loop code (r # rs) has_error lg =
     (if rd_terminate r then (LoopReturn, has_error, lg\<lparr>should_terminate := True\<rparr>)
      else case rd_bytes r of
        None \<Rightarrow> (LoopRaise, has_error, lg)
      | Some c \<Rightarrow>
          (let line = rstrip c
           in if line = []
              then (if rd_exited r then (LoopBreak, has_error, lg\<lparr>rc := Some code\<rparr>)
                    else stderr_loop code rs has_error lg)
              else stderr_loop code rs (scan_keywords line has_error) lg))"

text \<open>
  How \<open>ShellLogger.run\<close> ends: by the early \<open>return\<close> on the cooperative flag, by an
  exception (re-raised by the handler), by calling the exit callback with a status, or
  by falling through when no exit callback was given.
\<close>

datatype outcome = Returned | Raised | ExitCalled task_status | NoCallback

text \<open>
  \<open>ShellLogger.run\<close>. \<open>terminate\<close> is the method inherited from \<open>ProcessLogger\<close>, whose
  class is declared outside the source files at hand; it is a parameter here. The flush
  after the loops is guarded by \<open>has_error\<close> and is not guarded by a test of the handle:
  on a missing or closed file it raises.
\<close>

definition ShellLogger_run ::
  "(string \<Rightarrow> 'j option) \<Rightarrow> ('j logger \<Rightarrow> 'j logger) \<Rightarrow> bool \<Rightarrow> process \<Rightarrow> 'j logger
     \<Rightarrow> outcome \<times> 'j logger" where
  "ShellLogger_run json_loads terminate has_exit_function p lg0 =
     (case stdout_loop json_loads (exit_code p) (stdout p) (lg0\<lparr>outputs := EmptyDict\<rparr>) of
        (LoopReturn, lg1) \<Rightarrow> (Returned, lg1)
      | (LoopRaise, lg1) \<Rightarrow> (Raised, lg1)
      | (LoopBreak, lg1) \<Rightarrow>
          (case stderr_loop (exit_code p) (stderr p) False lg1 of
             (LoopReturn, has_error, lg2) \<Rightarrow> (Returned, lg2)
           | (LoopRaise, has_error, lg2) \<Rightarrow> (Raised, lg2)
           | (LoopBreak, has_error, lg2) \<Rightarrow>
               (if has_error \<and> logfp lg2 \<noteq> OpenFile then (Raised, lg2\<lparr>rc := Some (exit_code p)\<rparr>)
                else
                  (let lg3 = (if has_error then flush_fsync (lg2\<lparr>rc := Some (exit_code p)\<rparr>) else lg2);
                       lg4 = terminate lg3
                   in if has_exit_function
                      then (ExitCalled (if has_error then FAILED else COMPLETED), lg4)
                      else (NoCallback, lg4)))))"

text \<open>
  Modelled from the spec: \<open>ProcessLogger.terminate\<close>, which \<open>ShellLogger\<close> inherits and
  which is not among the source files. Section 4.2 of the spec describes the end of a
  run as "flush/fsync the log, and fire the exit callback", with the cooperative flag
  raised to stop the watcher; the flush is attempted only on a usable handle and a
  failure of it is not propagated.
\<close>

definition ProcessLogger_terminate :: "'j logger \<Rightarrow> 'j logger" where
  "ProcessLogger_terminate lg =
     (let lg1 = lg\<lparr>should_terminate := True\<rparr>
      in if logfp lg1 = OpenFile then flush_fsync lg1 else lg1)"

section \<open>The orchestrator (\<open>shepherd/management/taskmanager.py\<close>)\<close>

subsection \<open>Values, errors and collaborators\<close>

text \<open>
  Modelled from the spec: the enumerations \<open>ProgressKeys\<close> and \<open>InfoKeys\<close> of
  \<open>shepherd.management.enums\<close> are not among the source files; the members are the ones
  \<open>taskmanager.py\<close> names (section 3 of the spec lists the same steps and keys).
\<close>

datatype ProgressKeys =
  saveWorkflow | submitWorkflow | workflowMovedToFinalState | savedMetadata | copiedOutputs | savedLogs

datatype InfoKeys =
  InfoKeys_taskId | InfoKeys_status | InfoKeys_validating | InfoKeys_engineId
  | InfoKeys_environment | InfoKeys_engine_tid

text \<open>The Python values that the informational keys hold, and their truth value.\<close>

datatype info_value = VStr string | VBool bool | VStatus task_status

fun truthy :: "info_value option \<Rightarrow> bool" where
  "truthy None = False"
| "truthy (Some (VStr v)) = (v \<noteq> [])"
| "truthy (Some (VBool b)) = b"
| "truthy (Some (VStatus st)) = True"

text \<open>
  An output value as the engine returns it: a location string, a list, a
  \<open>CromwellFile\<close> (a location with secondary files), or an object of any other type, kept
  by the name of its type.
\<close>

datatype cromwell_file = CromwellFile (location: string) (secondary_files: "cromwell_file list")

datatype output_value =
  PyStr string | PyList "output_value list" | PyCromwellFile cromwell_file | PyObject string

text \<open>
  The exceptions: the three that \<open>taskmanager.py\<close> raises itself, each with the value its
  message is formatted from, and the failure of a call to a collaborator (engine,
  translator, file transport, environment registry), named by the call.
\<close>

datatype error =
    CouldntGetEnvironment "info_value option"
  | DontKnowHowToSaveMetadata string
  | DontKnowHowToHandleOutput string
  | CollaboratorError string

record task_metadata =
  md_status :: "task_status option"
  md_tid :: "info_value option"
  md_outdir :: string
  md_engine_name :: string
  md_engine_url :: string

text \<open>
  The engine of the environment. Its class is outside the source files; the orchestrator
  only calls it, so it is a parameter: each operation takes the engine's own state
  \<open>'e\<close> and returns a result or an exception, and the next state.
\<close>

record 'e Engine =
  eng_id :: string
  eng_is_Cromwell :: bool
  eng_engtype :: string
  eng_host :: string
  eng_start_from_paths :: "string \<Rightarrow> string \<Rightarrow> string \<Rightarrow> 'e \<Rightarrow> (error + string) \<times> 'e"
  eng_metadata :: "info_value option \<Rightarrow> 'e \<Rightarrow> (error + task_metadata option) \<times> 'e"
  eng_raw_metadata :: "info_value option \<Rightarrow> 'e \<Rightarrow> (error + string) \<times> 'e"
  eng_outputs_task :: "info_value option \<Rightarrow> 'e \<Rightarrow> (error + (string \<times> output_value) list) \<times> 'e"

text \<open>The file transport: \<open>cp_from source dest\<close> either copies or raises.\<close>

record FileScheme =
  cp_from_ok :: "string \<Rightarrow> string \<Rightarrow> bool"

record 'e Environment =
  env_id :: string
  engine :: "'e Engine"
  filescheme :: FileScheme

text \<open>
  The translation collaborators (\<open>janis\<close> and \<open>shepherd.validation\<close>): \<open>translate\<close> with
  its flags \<open>with_resource_overrides\<close>, \<open>merge_resources\<close>, the hints and the export path
  (true when it returns), the three file-name helpers, which are applied to whatever
  \<open>prepare_and_output_workflow_to_evaluate_if_required\<close> returned, and the generator of
  the validation workflow.
\<close>

record ('wf, 'v) Janis =
  translate :: "'wf \<Rightarrow> bool \<Rightarrow> bool \<Rightarrow> (string \<times> string) list \<Rightarrow> string \<Rightarrow> bool"
  workflow_filename :: "'wf option \<Rightarrow> error + string"
  inputs_filename :: "'wf option \<Rightarrow> error + string"
  dependencies_filename :: "'wf option \<Rightarrow> error + string"
  generate_validation_workflow_from_janis :: "'wf \<Rightarrow> 'v \<Rightarrow> 'wf"

text \<open>
  What the orchestrator does to the outside, in order: every call of a collaborator with
  its outcome, every file it writes, and every step it marks.
\<close>

datatype event =
    Translate bool bool
  | StartFromPaths string string string "error + string"
  | Metadata "error + task_metadata option"
  | RawMetadata "error + string"
  | OutputsTask "error + (string \<times> output_value) list"
  | CpFrom string string bool
  | WriteFile string
  | MarkCompleted ProgressKeys

datatype file_content = JsonDump string | CopyOf string

text \<open>
  The state: the fields of the \<open>TaskManager\<close> object (\<open>tid\<close>, \<open>_engine_tid\<close>, \<open>path\<close>), the
  persisted record behind \<open>self.database\<close>, the directories and files under the output
  root, the engine's state, and the trace of events.
\<close>

record 'e state =
  tm_tid :: "info_value option"
  tm_engine_tid :: "info_value option"
  tm_path :: string
  db_progress :: "ProgressKeys set"
  db_info :: "InfoKeys \<rightharpoonup> info_value"
  fs_dirs :: "string set"
  fs_files :: "string \<rightharpoonup> file_content"
  engine_state :: 'e
  trace :: "event list"

subsection \<open>The database\<close>

text \<open>
  Modelled from the spec: \<open>DatabaseManager\<close> (\<open>shepherd.data.dbmanager\<close>) is not among the
  source files. Section 6 of the spec: a mapping from step to completed flag and a
  mapping from informational key to value, with point lookup, point upsert and a "mark
  step completed" that sets the flag (safe to repeat). Marking is also put on the trace.
\<close>

definition progress_has_completed :: "'e state \<Rightarrow> ProgressKeys \<Rightarrow> bool" where
  "progress_has_completed s k = (k \<in> db_progress s)"

definition progress_mark_completed :: "ProgressKeys \<Rightarrow> 'e state \<Rightarrow> 'e state" where
  "progress_mark_completed k s =
     s\<lparr>db_progress := insert k (db_progress s), trace := trace s @ [MarkCompleted k]\<rparr>"

definition get_meta_info :: "'e state \<Rightarrow> InfoKeys \<Rightarrow> info_value option" where
  "get_meta_info s k = db_info s k"

definition add_meta_info :: "InfoKeys \<Rightarrow> info_value \<Rightarrow> 'e state \<Rightarrow> 'e state" where
  "add_meta_info k v s = s\<lparr>db_info := (db_info s)(k \<mapsto> v)\<rparr>"

definition add_meta_infos :: "(InfoKeys \<times> info_value) list \<Rightarrow> 'e state \<Rightarrow> 'e state" where
  "add_meta_infos kvs s = foldl (\<lambda>s' (k, v). add_meta_info k v s') s kvs"

subsection \<open>Paths and the constructor\<close>

definition endswith :: "string \<Rightarrow> string \<Rightarrow> bool" where
  "endswith s p = (length p \<le> length s \<and> drop (length s - length p) s = p)"

definition get_task_path_for :: "string \<Rightarrow> string" where
  "get_task_path_for outdir = outdir @ (if endswith outdir ''/'' then [] else ''/'')"

definition get_task_path :: "'e state \<Rightarrow> string" where
  "get_task_path s = get_task_path_for (tm_path s)"

definition outdir_workflow :: "'e state \<Rightarrow> string" where
  "outdir_workflow s = get_task_path s @ ''workflow/''"

definition create_dir_if_needed :: "string \<Rightarrow> 'e state \<Rightarrow> 'e state" where
  "create_dir_if_needed p s = (if p \<in> fs_dirs s then s else s\<lparr>fs_dirs := insert p (fs_dirs s)\<rparr>)"

definition create_output_structure :: "'e state \<Rightarrow> 'e state" where
  "create_output_structure s =
     (let s1 = create_dir_if_needed (get_task_path s) s;
          outputdir = get_task_path s1
      in foldl (\<lambda>s' f. create_dir_if_needed (outputdir @ f) s') s1
           [''workflow'', ''metadata'', ''validation'', ''outputs'', ''logs''])"

definition get_engine_tid :: "'e state \<Rightarrow> info_value option \<times> 'e state" where
  "get_engine_tid s =
     (let s1 = (if \<not> truthy (tm_engine_tid s)
                then s\<lparr>tm_engine_tid := get_meta_info s InfoKeys_engine_tid\<rparr> else s)
      in (tm_engine_tid s1, s1))"

text \<open>
  \<open>TaskManager.__init__\<close>. \<open>registry\<close> is \<open>Environment.get_predefined_environment_by_id\<close>
  (outside the source files), \<open>None\<close> when it raises.
\<close>

definition TaskManager_init ::
  "(info_value option \<Rightarrow> 'e Environment option) \<Rightarrow> string \<Rightarrow> info_value option
     \<Rightarrow> 'e Environment option \<Rightarrow> 'e state \<Rightarrow> (error + unit) \<times> 'e state" where
  "TaskManager_init registry outdir tid0 environment s0 =
     (let s1 = s0\<lparr>tm_tid := tid0, tm_engine_tid := None, tm_path := outdir\<rparr>;
          s2 = create_output_structure s1;
          s3 = (if \<not> truthy (tm_tid s2)
                then (case get_engine_tid s2 of (t, s') \<Rightarrow> s'\<lparr>tm_tid := t\<rparr>) else s2)
      in case environment of
           Some env \<Rightarrow> (Inr (), s3)
         | None \<Rightarrow>
             (let env = get_meta_info s3 InfoKeys_environment
              in if \<not> truthy env then (Inl (CouldntGetEnvironment (tm_tid s3)), s3)
                 else (case registry env of
                         None \<Rightarrow> (Inl (CollaboratorError ''get_predefined_environment_by_id''), s3)
                       | Some e \<Rightarrow> (Inr (), s3))))"

subsection \<open>Engine calls\<close>

text \<open>\<open>TaskManager.metadata\<close>: asks the engine and fills in the fields of a result.\<close>

definition metadata :: "'e Environment \<Rightarrow> 'e state \<Rightarrow> (error + task_metadata option) \<times> 'e state" where
  "metadata env s =
     (case get_engine_tid s of (etid, s1) \<Rightarrow>
        (case eng_metadata (engine env) etid (engine_state s1) of (r, e') \<Rightarrow>
           (let s2 = s1\<lparr>engine_state := e', trace := trace s1 @ [Metadata r]\<rparr>
            in case r of
                 Inl err \<Rightarrow> (Inl err, s2)
               | Inr None \<Rightarrow> (Inr None, s2)
               | Inr (Some meta) \<Rightarrow>
                   (Inr (Some (meta\<lparr>md_tid := tm_tid s2, md_outdir := tm_path s2,
                                    md_engine_name := eng_engtype (engine env),
                                    md_engine_url := (if eng_is_Cromwell (engine env)
                                                      then eng_host (engine env) else ''N/A'')\<rparr>)),
                    s2))))"

subsection \<open>The steps\<close>

definition prepare_and_output_workflow_to_evaluate_if_required ::
  "('wf, 'v) Janis \<Rightarrow> 'wf \<Rightarrow> 'v option \<Rightarrow> (string \<times> string) list \<Rightarrow> 'e state
     \<Rightarrow> (error + 'wf option) \<times> 'e state" where
  "prepare_and_output_workflow_to_evaluate_if_required j workflow validation hints s =
     (if progress_has_completed s saveWorkflow then (Inr None, s)
      else
        (let ok1 = translate j workflow False False hints (outdir_workflow s);
             s1 = s\<lparr>trace := trace s @ [Translate False ok1]\<rparr>
         in if \<not> ok1 then (Inl (CollaboratorError ''translate''), s1)
            else case validation of
                   None \<Rightarrow> (Inr (Some workflow), progress_mark_completed saveWorkflow s1)
                 | Some v \<Rightarrow>
                     (let workflow_to_evaluate = generate_validation_workflow_from_janis j workflow v;
                          ok2 = translate j workflow_to_evaluate True True hints (outdir_workflow s1);
                          s2 = s1\<lparr>trace := trace s1 @ [Translate True ok2]\<rparr>
                      in if \<not> ok2 then (Inl (CollaboratorError ''translate''), s2)
                         else (Inr (Some workflow_to_evaluate),
                               progress_mark_completed saveWorkflow s2))))"

definition submit_workflow_if_required ::
  "('wf, 'v) Janis \<Rightarrow> 'e Environment \<Rightarrow> 'wf option \<Rightarrow> 'e state \<Rightarrow> (error + unit) \<times> 'e state" where
  "submit_workflow_if_required j env wkf s =
     (if progress_has_completed s submitWorkflow then (Inr (), s)
      else case workflow_filename j wkf of Inl err \<Rightarrow> (Inl err, s) | Inr f1 \<Rightarrow>
        (case inputs_filename j wkf of Inl err \<Rightarrow> (Inl err, s) | Inr f2 \<Rightarrow>
          (case dependencies_filename j wkf of Inl err \<Rightarrow> (Inl err, s) | Inr f3 \<Rightarrow>
            (let fn_wf = outdir_workflow s @ f1;
                 fn_inp = outdir_workflow s @ f2;
                 fn_deps = outdir_workflow s @ f3
             in case eng_start_from_paths (engine env) fn_wf fn_inp fn_deps (engine_state s) of
                  (r, e') \<Rightarrow>
                    (let s1 = s\<lparr>engine_state := e',
                                trace := trace s @ [StartFromPaths fn_wf fn_inp fn_deps r]\<rparr>
                     in case r of
                          Inl err \<Rightarrow> (Inl err, s1)
                        | Inr etid \<Rightarrow>
                            (let s2 = s1\<lparr>tm_engine_tid := Some (VStr etid)\<rparr>;
                                 s3 = add_meta_info InfoKeys_engine_tid (VStr etid) s2;
                                 s4 = snd (get_engine_tid s3)
                             in (Inr (), progress_mark_completed submitWorkflow s4)))))))"

definition metadata_json :: "'e state \<Rightarrow> string" where
  "metadata_json s = get_task_path s @ ''metadata/metadata.json''"

definition save_metadata_if_required :: "'e Environment \<Rightarrow> 'e state \<Rightarrow> (error + unit) \<times> 'e state" where
  "save_metadata_if_required env s =
     (if progress_has_completed s savedMetadata then (Inr (), s)
      else if eng_is_Cromwell (engine env)
      then (case get_engine_tid s of (etid, s1) \<Rightarrow>
              (case eng_raw_metadata (engine env) etid (engine_state s1) of (r, e') \<Rightarrow>
                 (let s2 = s1\<lparr>engine_state := e', trace := trace s1 @ [RawMetadata r]\<rparr>
                  in case r of
                       Inl err \<Rightarrow> (Inl err, s2)
                     | Inr meta \<Rightarrow>
                         (let s3 = s2\<lparr>fs_files := (fs_files s2)(metadata_json s2 \<mapsto> JsonDump meta),
                                      trace := trace s2 @ [WriteFile (metadata_json s2)]\<rparr>
                          in (Inr (), progress_mark_completed savedMetadata s3)))))
      else (Inl (DontKnowHowToSaveMetadata (eng_id (engine env))), s))"

subsection \<open>Output staging\<close>

text \<open>\<open>str(counter)\<close>, as the f-string \<open>f"-shard-{counter}"\<close> formats it.\<close>

fun str_of_nat :: "nat \<Rightarrow> string" where
  "str_of_nat n =
     (if n < 10 then [char_of (48 + n)] else str_of_nat (n div 10) @ [char_of (48 + n mod 10)])"

declare str_of_nat.simps [simp del]

text \<open>\<open>filescheme.cp_from(source, dest, None)\<close>.\<close>

definition cp_from :: "FileScheme \<Rightarrow> string \<Rightarrow> string \<Rightarrow> 'e state \<Rightarrow> (error + unit) \<times> 'e state" where
  "cp_from fs source dest s =
     (if cp_from_ok fs source dest
      then (Inr (), s\<lparr>fs_files := (fs_files s)(dest \<mapsto> CopyOf source),
                      trace := trace s @ [CpFrom source dest True]\<rparr>)
      else (Inl (CollaboratorError ''cp_from''), s\<lparr>trace := trace s @ [CpFrom source dest False]\<rparr>))"

text \<open>A measure for the recursion of the staging functions through nested lists.\<close>

fun weight :: "output_value \<Rightarrow> nat" where
  "weight (PyStr x) = 0"
| "weight (PyObject t) = 0"
| "weight (PyCromwellFile out) = length (secondary_files out) + 2"
| "weight (PyList xs) = Suc (sum_list (map (\<lambda>x. Suc (weight x)) xs))"

text \<open>
  \<open>copy_output\<close>, with the loop of \<open>copy_sharded_outputs\<close> (from a counter on) and the loop
  of \<open>copy_cromwell_output\<close> over the secondary files. \<open>get_extension\<close> is
  \<open>shepherd.utils.get_extension\<close>, outside the source files and so a parameter. An
  exception of the transport ends the copying. \<open>copy_output\<close> has no \<open>else\<close> branch: a value
  of another type is passed over.
\<close>

function
  copy_output ::
    "(string \<Rightarrow> string option) \<Rightarrow> FileScheme \<Rightarrow> string \<Rightarrow> string \<Rightarrow> output_value \<Rightarrow> 'e state
       \<Rightarrow> (error + unit) \<times> 'e state"
  and copy_shards_from ::
    "(string \<Rightarrow> string option) \<Rightarrow> FileScheme \<Rightarrow> string \<Rightarrow> string \<Rightarrow> nat \<Rightarrow> output_value list
       \<Rightarrow> 'e state \<Rightarrow> (error + unit) \<times> 'e state"
  and copy_secondaries ::
    "(string \<Rightarrow> string option) \<Rightarrow> FileScheme \<Rightarrow> string \<Rightarrow> string \<Rightarrow> cromwell_file list
       \<Rightarrow> 'e state \<Rightarrow> (error + unit) \<times> 'e state"
where
  "copy_output get_extension fs output_dir filename (PyList outs) s =
     copy_shards_from get_extension fs output_dir filename 0 outs s"
| "copy_output get_extension fs output_dir filename (PyCromwellFile out) s =
     (case copy_output get_extension fs output_dir filename (PyStr (location out)) s of
        (Inl err, s1) \<Rightarrow> (Inl err, s1)
      | (Inr u, s1) \<Rightarrow> copy_secondaries get_extension fs output_dir filename (secondary_files out) s1)"
| "copy_output get_extension fs output_dir filename (PyStr source) s =
     (let ext = get_extension source;
          extwdot = (case ext of None \<Rightarrow> [] | Some e \<Rightarrow> if e = [] then [] else ''.'' @ e)
      in cp_from fs source (output_dir @ filename @ extwdot) s)"
| "copy_output get_extension fs output_dir filename (PyObject t) s = (Inr (), s)"
| "copy_shards_from get_extension fs output_dir filename counter [] s = (Inr (), s)"
| "copy_shards_from get_extension fs output_dir filename counter (out # outs) s =
     (let sid = ''-shard-'' @ str_of_nat counter
      in case copy_output get_extension fs output_dir (filename @ sid) out s of
           (Inl err, s1) \<Rightarrow> (Inl err, s1)
         | (Inr u, s1) \<Rightarrow> copy_shards_from get_extension fs output_dir filename (Suc counter) outs s1)"
| "copy_secondaries get_extension fs output_dir filename [] s = (Inr (), s)"
| "copy_secondaries get_extension fs output_dir filename (sec # secs) s =
     (case copy_output get_extension fs output_dir filename (PyStr (location sec)) s of
        (Inl err, s1) \<Rightarrow> (Inl err, s1)
      | (Inr u, s1) \<Rightarrow> copy_secondaries get_extension fs output_dir filename secs s1)"
  by pat_completeness auto
termination
  by (relation "measure (\<lambda>x. case x of
         Inl (g, fs, d, f, v, s) \<Rightarrow> weight v
       | Inr (Inl (g, fs, d, f, c, vs, s)) \<Rightarrow> sum_list (map (\<lambda>v. Suc (weight v)) vs)
       | Inr (Inr (g, fs, d, f, secs, s)) \<Rightarrow> Suc (length secs))") auto

definition copy_sharded_outputs ::
  "(string \<Rightarrow> string option) \<Rightarrow> FileScheme \<Rightarrow> string \<Rightarrow> string \<Rightarrow> output_value list \<Rightarrow> 'e state
     \<Rightarrow> (error + unit) \<times> 'e state" where
  "copy_sharded_outputs get_extension fs output_dir filename outs s =
     copy_shards_from get_extension fs output_dir filename 0 outs s"

definition copy_cromwell_output ::
  "(string \<Rightarrow> string option) \<Rightarrow> FileScheme \<Rightarrow> string \<Rightarrow> string \<Rightarrow> cromwell_file \<Rightarrow> 'e state
     \<Rightarrow> (error + unit) \<times> 'e state" where
  "copy_cromwell_output get_extension fs output_dir filename out s =
     (case copy_output get_extension fs output_dir filename (PyStr (location out)) s of
        (Inl err, s1) \<Rightarrow> (Inl err, s1)
      | (Inr u, s1) \<Rightarrow> copy_secondaries get_extension fs output_dir filename (secondary_files out) s1)"

text \<open>\<open>o.split(".")\<close> and the test \<open>o.split(".")[-1].startswith("validated_")\<close>.\<close>

fun split :: "char \<Rightarrow> string \<Rightarrow> string list" where
  "split sep [] = [[]]"
| "split sep (c # cs) =
     (if c = sep then [] # split sep cs
      else case split sep cs of w # ws \<Rightarrow> (c # w) # ws | [] \<Rightarrow> [[c]])"

definition output_is_validating :: "bool \<Rightarrow> string \<Rightarrow> bool" where
  "output_is_validating is_validating outname =
     (is_validating \<and> startswith (last (split CHR ''.'' outname)) ''validated_'')"

text \<open>The loop \<open>for outname, o in outputs.items()\<close> of \<open>copy_outputs_if_required\<close>.\<close>

fun copy_each_output ::
  "(string \<Rightarrow> string option) \<Rightarrow> FileScheme \<Rightarrow> bool \<Rightarrow> string \<Rightarrow> string
     \<Rightarrow> (string \<times> output_value) list \<Rightarrow> 'e state \<Rightarrow> (error + unit) \<times> 'e state" where
  "copy_each_output get_extension fs is_validating outdir valdir [] s = (Inr (), s)"
| "copy_each_output get_extension fs is_validating outdir valdir ((outname, out) # rest) s =
     (let od = (if output_is_validating is_validating outname then valdir else outdir)
      in case (case out of
                 PyList outs \<Rightarrow> copy_sharded_outputs get_extension fs od outname outs s
               | PyCromwellFile cf \<Rightarrow> copy_cromwell_output get_extension fs od outname cf s
               | PyStr source \<Rightarrow> copy_output get_extension fs od outname out s
               | PyObject t \<Rightarrow> (Inl (DontKnowHowToHandleOutput t), s)) of
           (Inl err, s1) \<Rightarrow> (Inl err, s1)
         | (Inr u, s1) \<Rightarrow> copy_each_output get_extension fs is_validating outdir valdir rest s1)"

definition copy_outputs_if_required ::
  "(string \<Rightarrow> string option) \<Rightarrow> 'e Environment \<Rightarrow> 'e state \<Rightarrow> (error + unit) \<times> 'e state" where
  "copy_outputs_if_required get_extension env s =
     (if progress_has_completed s copiedOutputs then (Inr (), s)
      else case get_engine_tid s of (etid, s1) \<Rightarrow>
        (case eng_outputs_task (engine env) etid (engine_state s1) of (r, e') \<Rightarrow>
           (let s2 = s1\<lparr>engine_state := e', trace := trace s1 @ [OutputsTask r]\<rparr>
            in case r of
                 Inl err \<Rightarrow> (Inl err, s2)
               | Inr outs \<Rightarrow>
                   if outs = [] then (Inr (), s2)
                   else
                     (let is_validating = truthy (get_meta_info s2 InfoKeys_validating);
                          outdir = get_task_path s2 @ ''outputs/'';
                          valdir = get_task_path s2 @ ''validation/'';
                          fs = filescheme env
                      in case copy_each_output get_extension fs is_validating outdir valdir outs s2 of
                           (Inl err, s3) \<Rightarrow> (Inl err, s3)
                         | (Inr u, s3) \<Rightarrow> (Inr (), progress_mark_completed copiedOutputs s3)))))"

subsection \<open>Waiting, resuming and the entry points\<close>

text \<open>
  The polling loop of \<open>wait_if_required\<close>. It runs until the engine reports a final
  status, which may be never: not returning is the value \<open>None\<close>. (\<open>call('clear')\<close>,
  the printing and \<open>time.sleep(5)\<close> leave the state alone.)
\<close>

partial_function (option) wait_loop ::
  "'e Environment \<Rightarrow> task_status option \<Rightarrow> 'e state \<Rightarrow> ((error + unit) \<times> 'e state) option" where
  "wait_loop env st s =
     (if in_final_states st then Some (Inr (), s)
      else case metadata env s of
             (Inl err, s1) \<Rightarrow> Some (Inl err, s1)
           | (Inr meta, s1) \<Rightarrow>
               wait_loop env (case meta of None \<Rightarrow> st | Some m \<Rightarrow> md_status m) s1)"

declare wait_loop.simps [code]

definition wait_if_required :: "'e Environment \<Rightarrow> 'e state \<Rightarrow> ((error + unit) \<times> 'e state) option" where
  "wait_if_required env s =
     (if progress_has_completed s workflowMovedToFinalState
      then (case metadata env s of
              (Inl err, s1) \<Rightarrow> Some (Inl err, s1)
            | (Inr meta, s1) \<Rightarrow> Some (Inr (), s1))
      else case wait_loop env None s of
             None \<Rightarrow> None
           | Some (Inl err, s1) \<Rightarrow> Some (Inl err, s1)
           | Some (Inr u, s1) \<Rightarrow> Some (Inr (), progress_mark_completed workflowMovedToFinalState s1))"

definition resume_if_possible ::
  "(string \<Rightarrow> string option) \<Rightarrow> 'e Environment \<Rightarrow> 'e state \<Rightarrow> ((error + unit) \<times> 'e state) option" where
  "resume_if_possible get_extension env s =
     (if \<not> progress_has_completed s submitWorkflow then Some (Inr (), s)
      else case wait_if_required env s of
             None \<Rightarrow> None
           | Some (Inl err, s1) \<Rightarrow> Some (Inl err, s1)
           | Some (Inr u, s1) \<Rightarrow>
               (case save_metadata_if_required env s1 of
                  (Inl err, s2) \<Rightarrow> Some (Inl err, s2)
                | (Inr u, s2) \<Rightarrow> Some (copy_outputs_if_required get_extension env s2)))"

definition from_janis ::
  "('wf, 'v) Janis \<Rightarrow> (string \<Rightarrow> string option) \<Rightarrow> (info_value option \<Rightarrow> 'e Environment option)
     \<Rightarrow> string \<Rightarrow> string \<Rightarrow> 'wf \<Rightarrow> 'e Environment \<Rightarrow> (string \<times> string) list \<Rightarrow> 'v option
     \<Rightarrow> 'e state \<Rightarrow> ((error + unit) \<times> 'e state) option" where
  "from_janis j get_extension registry tid0 outdir workflow environment hints validation_requirements s =
     (case TaskManager_init registry outdir (Some (VStr tid0)) (Some environment) s of
        (Inl err, s1) \<Rightarrow> Some (Inl err, s1)
      | (Inr u, s1) \<Rightarrow>
          (let s2 = add_meta_infos
                      [(InfoKeys_taskId, VStr tid0),
                       (InfoKeys_status, VStatus PROCESSING),
                       (InfoKeys_validating, VBool (validation_requirements \<noteq> None)),
                       (InfoKeys_engineId, VStr (eng_id (engine environment))),
                       (InfoKeys_environment, VStr (env_id environment))] s1
           in case prepare_and_output_workflow_to_evaluate_if_required j workflow
                     validation_requirements hints s2 of
                (Inl err, s3) \<Rightarrow> Some (Inl err, s3)
              | (Inr wf_evaluate, s3) \<Rightarrow>
                  (case submit_workflow_if_required j environment wf_evaluate s3 of
                     (Inl err, s4) \<Rightarrow> Some (Inl err, s4)
                   | (Inr u, s4) \<Rightarrow> resume_if_possible get_extension environment s4)))"

text \<open>
  \<open>from_path\<close>: the task id and the environment come from the record under the path; it
  returns the environment of the manager it built.
\<close>

definition from_path ::
  "(info_value option \<Rightarrow> 'e Environment option) \<Rightarrow> string \<Rightarrow> 'e state
     \<Rightarrow> (error + 'e Environment) \<times> 'e state" where
  "from_path registry path0 s =
     (let p = get_task_path_for path0;
          tid0 = get_meta_info s InfoKeys_taskId;
          envid = get_meta_info s InfoKeys_environment
      in case registry envid of
           None \<Rightarrow> (Inl (CollaboratorError ''get_predefined_environment_by_id''), s)
         | Some env \<Rightarrow>
             (case TaskManager_init registry p tid0 (Some env) s of
                (Inl err, s1) \<Rightarrow> (Inl err, s1)
              | (Inr u, s1) \<Rightarrow> (Inr env, s1)))"

text \<open>
  \<open>copy_logs_if_required\<close>: it returns at once unless the step is already marked, and
  otherwise only fetches the metadata.
\<close>

definition copy_logs_if_required :: "'e Environment \<Rightarrow> 'e state \<Rightarrow> (error + unit) \<times> 'e state" where
  "copy_logs_if_required env s =
     (if \<not> progress_has_completed s savedLogs then (Inr (), s)
      else case metadata env s of
             (Inl err, s1) \<Rightarrow> (Inl err, s1)
           | (Inr meta, s1) \<Rightarrow> (Inr (), s1))"

section \<open>Notions used in the statements\<close>

subsection \<open>Traces\<close>

text \<open>The number of calls of the engine's start operation on a trace.\<close>

fun is_start :: "event \<Rightarrow> bool" where
  "is_start (StartFromPaths a b c r) = True"
| "is_start ev = False"

definition starts :: "event list \<Rightarrow> nat" where
  "starts tr = length (filter is_start tr)"

text \<open>The steps marked on a trace, and the successful copies on it, in order.\<close>

fun marks :: "event list \<Rightarrow> ProgressKeys list" where
  "marks [] = []"
| "marks (MarkCompleted k # evs) = k # marks evs"
| "marks (ev # evs) = marks evs"

fun copied :: "event list \<Rightarrow> (string \<times> string) list" where
  "copied [] = []"
| "copied (CpFrom a b ok # evs) = (if ok then (a, b) # copied evs else copied evs)"
| "copied (ev # evs) = copied evs"

text \<open>
  \<open>justifies ev k\<close>: the event \<open>ev\<close> is the successful end of the side effect of step
  \<open>k\<close>: a translation that returned, a start that returned, a poll that reported a final
  status, the metadata file written, a copy that returned or (when nothing had to be
  copied) the fetch of a non-empty output mapping. Nothing justifies \<open>savedLogs\<close>.
\<close>

fun justifies :: "event \<Rightarrow> ProgressKeys \<Rightarrow> bool" where
  "justifies (Translate overrides ok) k = (ok \<and> k = saveWorkflow)"
| "justifies (StartFromPaths a b c r) k = ((case r of Inl err \<Rightarrow> False | Inr t \<Rightarrow> True) \<and> k = submitWorkflow)"
| "justifies (Metadata r) k =
     ((case r of Inr (Some m) \<Rightarrow> in_final_states (md_status m) | _ \<Rightarrow> False)
      \<and> k = workflowMovedToFinalState)"
| "justifies (WriteFile p) k = (k = savedMetadata)"
| "justifies (OutputsTask r) k = ((case r of Inl err \<Rightarrow> False | Inr outs \<Rightarrow> outs \<noteq> []) \<and> k = copiedOutputs)"
| "justifies (CpFrom a b ok) k = (ok \<and> k = copiedOutputs)"
| "justifies (RawMetadata r) k = False"
| "justifies (MarkCompleted k') k = False"

text \<open>
  \<open>marks_justified prev tr\<close>: on the trace \<open>tr\<close>, which follows the event \<open>prev\<close>, every
  mark comes directly after an event that justifies it.
\<close>

fun marks_justified :: "event option \<Rightarrow> event list \<Rightarrow> bool" where
  "marks_justified prev [] = True"
| "marks_justified prev (ev # evs) =
     ((case ev of
         MarkCompleted k \<Rightarrow> (case prev of None \<Rightarrow> False | Some p \<Rightarrow> justifies p k)
       | _ \<Rightarrow> True)
      \<and> marks_justified (Some ev) evs)"

definition last_event :: "event list \<Rightarrow> event option" where
  "last_event tr = (if tr = [] then None else Some (last tr))"

text \<open>
  The order of the steps on a progress record: a later step is marked only if the step
  before it is, and \<open>savedLogs\<close> is not marked.
\<close>

definition in_step_order :: "ProgressKeys set \<Rightarrow> bool" where
  "in_step_order P =
     ((copiedOutputs \<in> P \<longrightarrow> savedMetadata \<in> P)
      \<and> (savedMetadata \<in> P \<longrightarrow> workflowMovedToFinalState \<in> P)
      \<and> (workflowMovedToFinalState \<in> P \<longrightarrow> submitWorkflow \<in> P)
      \<and> (submitWorkflow \<in> P \<longrightarrow> saveWorkflow \<in> P)
      \<and> savedLogs \<notin> P)"

subsection \<open>Frames\<close>

text \<open>\<open>unchanged_record s s'\<close>: the persisted record, the files and the directories are the same.\<close>

definition unchanged_record :: "'e state \<Rightarrow> 'e state \<Rightarrow> bool" where
  "unchanged_record s s' =
     (db_progress s' = db_progress s \<and> db_info s' = db_info s
      \<and> fs_files s' = fs_files s \<and> fs_dirs s' = fs_dirs s)"

text \<open>
  \<open>only_copies r s s'\<close>: from \<open>s\<close> to \<open>s'\<close> only files were copied; when the result \<open>r\<close> is
  a normal return, every copy returned.
\<close>

definition only_copies :: "(error + unit) \<Rightarrow> 'e state \<Rightarrow> 'e state \<Rightarrow> bool" where
  "only_copies r s s' =
     (tm_tid s' = tm_tid s \<and> tm_engine_tid s' = tm_engine_tid s \<and> tm_path s' = tm_path s
      \<and> db_progress s' = db_progress s \<and> db_info s' = db_info s \<and> fs_dirs s' = fs_dirs s
      \<and> engine_state s' = engine_state s
      \<and> (\<exists>evs. trace s' = trace s @ evs
            \<and> (\<forall>ev \<in> set evs. \<exists>a b ok. ev = CpFrom a b ok \<and> (r = Inr () \<longrightarrow> ok))))"

text \<open>
  \<open>advances s s'\<close>: the trace of \<open>s'\<close> extends the trace of \<open>s\<close>, the steps marked in
  between are exactly the steps added to the progress record, and each of these marks
  is justified.
\<close>

definition advances :: "'e state \<Rightarrow> 'e state \<Rightarrow> bool" where
  "advances s s' =
     (\<exists>evs. trace s' = trace s @ evs
        \<and> db_progress s' = db_progress s \<union> set (marks evs)
        \<and> marks_justified (last_event (trace s)) evs)"

text \<open>
  \<open>quiet s s'\<close>: the progress record is the same and the events in between are neither
  marks nor calls of the start operation.
\<close>

definition quiet :: "'e state \<Rightarrow> 'e state \<Rightarrow> bool" where
  "quiet s s' =
     (db_progress s' = db_progress s
      \<and> (\<exists>evs. trace s' = trace s @ evs \<and> marks evs = [] \<and> starts evs = 0))"

subsection \<open>Reachable states\<close>

text \<open>
  The states that runs of the entry points reach from an empty progress record: a run
  of \<open>from_janis\<close>, of \<open>from_path\<close>, or of \<open>from_path\<close> followed by \<open>resume_if_possible\<close>,
  whether it returns or raises (a run that raises leaves the record as it was at that
  point). Between runs the engine may move on by itself.
\<close>

inductive reachable ::
  "('wf, 'v) Janis \<Rightarrow> (string \<Rightarrow> string option) \<Rightarrow> (info_value option \<Rightarrow> 'e Environment option)
     \<Rightarrow> 'e state \<Rightarrow> bool"
  for j :: "('wf, 'v) Janis" and get_extension :: "string \<Rightarrow> string option"
    and registry :: "info_value option \<Rightarrow> 'e Environment option"
where
  empty_record: "db_progress s = {} \<Longrightarrow> trace s = [] \<Longrightarrow> reachable j get_extension registry s"
| engine_moves:
    "reachable j get_extension registry s \<Longrightarrow> reachable j get_extension registry (s\<lparr>engine_state := e\<rparr>)"
| run_from_janis:
    "reachable j get_extension registry s \<Longrightarrow>
     from_janis j get_extension registry tid0 outdir workflow environment hints validation s = Some (r, s')
     \<Longrightarrow> reachable j get_extension registry s'"
| run_from_path:
    "reachable j get_extension registry s \<Longrightarrow> from_path registry path0 s = (r, s')
     \<Longrightarrow> reachable j get_extension registry s'"
| run_resume:
    "reachable j get_extension registry s \<Longrightarrow> from_path registry path0 s = (Inr env, s1)
     \<Longrightarrow> resume_if_possible get_extension env s1 = Some (r, s')
     \<Longrightarrow> reachable j get_extension registry s'"

subsection \<open>Staging plan\<close>

text \<open>The suffix that \<open>copy_output\<close> appends to the destination: a dot and the extension of
  the source, or nothing when the source has no extension.\<close>

definition extwdot :: "(string \<Rightarrow> string option) \<Rightarrow> string \<Rightarrow> string" where
  "extwdot get_extension source =
     (case get_extension source of None \<Rightarrow> [] | Some e \<Rightarrow> if e = [] then [] else ''.'' @ e)"

text \<open>
  The copies, as pairs of source and destination, that the staging of the spec
  (section 4.4) prescribes for a value bound to an output name in a directory:
  a location goes to the directory under the name, with the extension of the source
  appended when it has one; the elements of a sequence are staged, each by its own
  shape, under the name with the suffix \<open>-shard-i\<close>, from \<open>i\<close> on; a location with
  secondary files is copied under the name and then every secondary file under the
  same name, each with its own extension; for any other value nothing is copied.
\<close>

fun staging_plan ::
    "(string \<Rightarrow> string option) \<Rightarrow> string \<Rightarrow> string \<Rightarrow> output_value \<Rightarrow> (string \<times> string) list"
  and shards_plan ::
    "(string \<Rightarrow> string option) \<Rightarrow> string \<Rightarrow> string \<Rightarrow> nat \<Rightarrow> output_value list
       \<Rightarrow> (string \<times> string) list"
where
  "staging_plan get_extension dir name (PyStr source) =
     [(source, dir @ name @ extwdot get_extension source)]"
| "staging_plan get_extension dir name (PyList outs) = shards_plan get_extension dir name 0 outs"
| "staging_plan get_extension dir name (PyCromwellFile out) =
     (location out, dir @ name @ extwdot get_extension (location out))
     # map (\<lambda>sec. (location sec, dir @ name @ extwdot get_extension (location sec)))
         (secondary_files out)"
| "staging_plan get_extension dir name (PyObject t) = []"
| "shards_plan get_extension dir name i [] = []"
| "shards_plan get_extension dir name i (out # outs) =
     staging_plan get_extension dir (name @ ''-shard-'' @ str_of_nat i) out
     @ shards_plan get_extension dir name (Suc i) outs"

text \<open>
  Carrying out a list of copies with a file transport, in order, up to the first copy
  on which the transport raises.
\<close>

fun run_copies :: "FileScheme \<Rightarrow> (string \<times> string) list \<Rightarrow> 'e state \<Rightarrow> (error + unit) \<times> 'e state" where
  "run_copies fs [] s = (Inr (), s)"
| "run_copies fs ((source, dest) # rest) s =
     (case cp_from fs source dest s of
        (Inl err, s1) \<Rightarrow> (Inl err, s1)
      | (Inr u, s1) \<Rightarrow> run_copies fs rest s1)"

text \<open>The values that \<open>copy_outputs_if_required\<close> refuses at the top level of the mapping.\<close>

fun is_object :: "output_value \<Rightarrow> bool" where
  "is_object (PyObject t) = True"
| "is_object v = False"

text \<open>The directory of an output: the validation directory for a validating task and a
  name whose part after the last dot starts with \<open>validated_\<close>, else the outputs directory.\<close>

definition staging_dir :: "'e state \<Rightarrow> string \<Rightarrow> string" where
  "staging_dir s name =
     get_task_path s @
       (if truthy (db_info s InfoKeys_validating) \<and> startswith (last (split CHR ''.'' name)) ''validated_''
        then ''validation/'' else ''outputs/'')"

subsection \<open>The lines of a transcript\<close>

text \<open>
  The line that the watcher makes of a read, the reads that end the loop over standard
  output (an empty line when the process has exited), and the lines read before that.
\<close>

definition line_of :: "read \<Rightarrow> string" where
  "line_of r = (case rd_bytes r of None \<Rightarrow> [] | Some c \<Rightarrow> rstrip c)"

definition ends_loop :: "read \<Rightarrow> bool" where
  "ends_loop r = (line_of r = [] \<and> rd_exited r)"

definition lines_read :: "read list \<Rightarrow> string list" where
  "lines_read rs = map line_of (takeWhile (\<lambda>r. \<not> ends_loop r) rs)"

section \<open>An example environment\<close>

text \<open>
  A small engine whose state counts the polls: it reports processing for the first two
  polls and completed from then on, and returns the given outputs.
\<close>

definition example_engine :: "bool \<Rightarrow> (string \<times> output_value) list \<Rightarrow> nat Engine" where
  "example_engine cromwell outs =
     \<lparr>eng_id = (if cromwell then ''cromwell'' else ''shell''),
      eng_is_Cromwell = cromwell,
      eng_engtype = (if cromwell then ''cromwell'' else ''shell''),
      eng_host = ''localhost:8000'',
      eng_start_from_paths = (\<lambda>a b c n. (Inr ''engine-task-1'', n)),
      eng_metadata = (\<lambda>t n. (Inr (Some \<lparr>md_status = Some (if n < 2 then PROCESSING else COMPLETED),
                                           md_tid = None, md_outdir = [], md_engine_name = [],
                                           md_engine_url = []\<rparr>), Suc n)),
      eng_raw_metadata = (\<lambda>t n. (Inr ''{}'', n)),
      eng_outputs_task = (\<lambda>t n. (Inr outs, n))\<rparr>"

definition example_environment :: "bool \<Rightarrow> (string \<times> output_value) list \<Rightarrow> nat Environment" where
  "example_environment cromwell outs =
     \<lparr>env_id = ''local'', engine = example_engine cromwell outs,
      filescheme = \<lparr>cp_from_ok = (\<lambda>a b. True)\<rparr>\<rparr>"

definition example_registry ::
  "(string \<times> output_value) list \<Rightarrow> info_value option \<Rightarrow> nat Environment option" where
  "example_registry outs v =
     (if v = Some (VStr ''local'') then Some (example_environment True outs) else None)"

definition example_janis :: "(string, unit) Janis" where
  "example_janis =
     \<lparr>translate = (\<lambda>w overrides merge hints p. True),
      workflow_filename = (\<lambda>w. case w of None \<Rightarrow> Inl (CollaboratorError ''workflow_filename'')
                                | Some n \<Rightarrow> Inr (n @ ''.wdl'')),
      inputs_filename = (\<lambda>w. case w of None \<Rightarrow> Inl (CollaboratorError ''inputs_filename'')
                              | Some n \<Rightarrow> Inr (n @ ''-inp.json'')),
      dependencies_filename = (\<lambda>w. case w of None \<Rightarrow> Inl (CollaboratorError ''dependencies_filename'')
                                    | Some n \<Rightarrow> Inr (n @ ''.zip'')),
      generate_validation_workflow_from_janis = (\<lambda>w v. w @ ''_validated'')\<rparr>"

text \<open>An extension helper for the examples: the text after the last dot, if there is any.\<close>

definition example_get_extension :: "string \<Rightarrow> string option" where
  "example_get_extension fn =
     (let parts = split CHR ''.'' fn
      in if length parts < 2 \<or> last parts = [] then None else Some (last parts))"

definition example_state :: "ProgressKeys set \<Rightarrow> bool \<Rightarrow> nat state" where
  "example_state done validating =
     \<lparr>tm_tid = Some (VStr ''t1''), tm_engine_tid = None, tm_path = ''/out/t1'',
      db_progress = done,
      db_info = [InfoKeys_validating \<mapsto> VBool validating, InfoKeys_environment \<mapsto> VStr ''local'',
                 InfoKeys_taskId \<mapsto> VStr ''t1''],
      fs_dirs = {}, fs_files = Map.empty, engine_state = 0, trace = []\<rparr>"

definition example_logger :: "string logger" where
  "example_logger =
     \<lparr>outputs = EmptyDict, rc = None, last_write = 0, should_terminate = False,
      logfp = OpenFile, buffered = [], durable = []\<rparr>"

definition example_read :: "string \<Rightarrow> int \<Rightarrow> read" where
  "example_read c now = \<lparr>rd_terminate = False, rd_bytes = Some c, rd_exited = True, rd_now = now\<rparr>"

section \<open>Frame lemmas\<close>

lemma get_engine_tid_eq:
  "get_engine_tid s = (t, s') \<Longrightarrow> s' = s\<lparr>tm_engine_tid := t\<rparr>"
  by (auto simp: get_engine_tid_def Let_def split: if_splits)

lemma metadata_frame:
  assumes "metadata env s = (r, s')"
  shows "db_progress s' = db_progress s \<and> db_info s' = db_info s \<and> fs_files s' = fs_files s
         \<and> fs_dirs s' = fs_dirs s \<and> tm_tid s' = tm_tid s \<and> tm_path s' = tm_path s
         \<and> (\<exists>m. trace s' = trace s @ [Metadata m])"
  using assms
  by (auto simp: metadata_def Let_def dest!: get_engine_tid_eq
           split: prod.splits sum.splits option.splits)

lemma only_copies_refl: "only_copies r s s"
  by (simp add: only_copies_def)

lemma only_copies_trans:
  assumes "only_copies (Inr ()) s s1" "only_copies r s1 s2"
  shows "only_copies r s s2"
proof -
  from assms(1) obtain evs1 where
    t1: "trace s1 = trace s @ evs1"
    and e1: "\<forall>ev \<in> set evs1. \<exists>a b ok. ev = CpFrom a b ok \<and> ok"
    by (auto simp: only_copies_def)
  from assms(2) obtain evs2 where
    t2: "trace s2 = trace s1 @ evs2"
    and e2: "\<forall>ev \<in> set evs2. \<exists>a b ok. ev = CpFrom a b ok \<and> (r = Inr () \<longrightarrow> ok)"
    by (auto simp: only_copies_def)
  have "trace s2 = trace s @ (evs1 @ evs2)"
    by (simp add: t1 t2)
  moreover have "\<forall>ev \<in> set (evs1 @ evs2). \<exists>a b ok. ev = CpFrom a b ok \<and> (r = Inr () \<longrightarrow> ok)"
    using e1 e2 by fastforce
  ultimately have "\<exists>evs. trace s2 = trace s @ evs
      \<and> (\<forall>ev \<in> set evs. \<exists>a b ok. ev = CpFrom a b ok \<and> (r = Inr () \<longrightarrow> ok))"
    by blast
  then show ?thesis using assms unfolding only_copies_def by simp
qed

lemma cp_from_only_copies: "cp_from fs a b s = (r, s') \<Longrightarrow> only_copies r s s'"
  by (auto simp: cp_from_def only_copies_def split: if_splits)

lemma copy_only_copies:
  "copy_output g fs d f v s = (r, s') \<Longrightarrow> only_copies r s s'"
  "copy_shards_from g fs d f c vs s = (r, s') \<Longrightarrow> only_copies r s s'"
  "copy_secondaries g fs d f secs s = (r, s') \<Longrightarrow> only_copies r s s'"
proof (induction g fs d f v s and g fs d f c vs s and g fs d f secs s
       arbitrary: r s' and r s' and r s'
       rule: copy_output_copy_shards_from_copy_secondaries.induct)
  case (1 g fs d f outs s)
  then show ?case by simp
next
  case (2 g fs d f out s)
  show ?case
  proof (cases "copy_output g fs d f (PyStr (location out)) s")
    case (Pair r1 s1)
    then show ?thesis using 2 
      by (cases r1) (auto intro: only_copies_trans)
  qed
next
  case (3 g fs d f source s)
  then show ?case by (auto simp: Let_def dest: cp_from_only_copies)
next
  case (4 g fs d f t s)
  then show ?case by (auto simp: only_copies_refl)
next
  case (5 g fs d f c s)
  then show ?case by (auto simp: only_copies_refl)
next
  case (6 g fs d f c out outs s)
  obtain r1 s1 where Pair: "copy_output g fs d (f @ ''-shard-'' @ str_of_nat c) out s = (r1, s1)"
    by (cases "copy_output g fs d (f @ ''-shard-'' @ str_of_nat c) out s")
  have a: "only_copies r1 s s1" by (rule 6(1)[OF refl Pair])
  show ?case
  proof (cases r1)
    case (Inl e)
    then show ?thesis using 6(3) Pair a by (simp add: Let_def)
  next
    case (Inr u)
    then have rest: "copy_shards_from g fs d f (Suc c) outs s1 = (r, s')"
      using 6(3) Pair by (simp add: Let_def)
    have "only_copies r s1 s'" by (rule 6(2)[OF refl Pair[symmetric] Inr rest])
    with a Inr show ?thesis by (auto intro: only_copies_trans)
  qed
next
  case (7 g fs d f s)
  then show ?case by (auto simp: only_copies_refl)
next
  case (8 g fs d f sec secs s)
  show ?case
  proof (cases "copy_output g fs d f (PyStr (location sec)) s")
    case (Pair r1 s1)
    then show ?thesis using 8
      by (cases r1) (auto intro: only_copies_trans)
  qed
qed

lemma copy_each_only_copies:
  "copy_each_output g fs v od vd outs s = (r, s') \<Longrightarrow>
     (\<exists>t. r = Inl (DontKnowHowToHandleOutput t) \<and> (\<exists>n. (n, PyObject t) \<in> set outs) \<and> only_copies (Inr ()) s s')
     \<or> only_copies r s s'"
proof (induction outs arbitrary: s)
  case Nil
  then show ?case by (auto simp: only_copies_refl)
next
  case (Cons a outs)
  obtain n out where a: "a = (n, out)" by (cases a)
  show ?case
  proof (cases out)
    case (PyObject t)
    then show ?thesis using Cons.prems a by (auto simp: only_copies_refl)
  next
    case (PyStr src)
    show ?thesis
    proof (cases "copy_output g fs (if output_is_validating v n then vd else od) n out s")
      case (Pair r1 s1)
      show ?thesis
      proof (cases r1)
        case (Inl e)
        then show ?thesis using Cons.prems a PyStr Pair copy_only_copies(1)[OF Pair]
          by (auto simp: Let_def)
      next
        case (Inr u)
        then have "copy_each_output g fs v od vd outs s1 = (r, s')"
          using Cons.prems a PyStr Pair by (auto simp: Let_def)
        from Cons.IH[OF this] copy_only_copies(1)[OF Pair] Inr
        show ?thesis by (auto intro: only_copies_trans)
      qed
    qed
  next
    case (PyList xs)
    show ?thesis
    proof (cases "copy_shards_from g fs (if output_is_validating v n then vd else od) n 0 xs s")
      case (Pair r1 s1)
      show ?thesis
      proof (cases r1)
        case (Inl e)
        then show ?thesis using Cons.prems a PyList Pair copy_only_copies(2)[OF Pair]
          by (auto simp: Let_def copy_sharded_outputs_def)
      next
        case (Inr u)
        then have "copy_each_output g fs v od vd outs s1 = (r, s')"
          using Cons.prems a PyList Pair by (auto simp: Let_def copy_sharded_outputs_def)
        from Cons.IH[OF this] copy_only_copies(2)[OF Pair] Inr
        show ?thesis by (auto intro: only_copies_trans)
      qed
    qed
  next
    case (PyCromwellFile cf)
    show ?thesis
    proof (cases "copy_output g fs (if output_is_validating v n then vd else od) n (PyCromwellFile cf) s")
      case (Pair r1 s1)
      have eq: "copy_cromwell_output g fs (if output_is_validating v n then vd else od) n cf s = (r1, s1)"
        using Pair by (simp add: copy_cromwell_output_def)
      show ?thesis
      proof (cases r1)
        case (Inl e)
        then show ?thesis using Cons.prems a PyCromwellFile eq copy_only_copies(1)[OF Pair]
          by (auto simp: Let_def)
      next
        case (Inr u)
        then have "copy_each_output g fs v od vd outs s1 = (r, s')"
          using Cons.prems a PyCromwellFile eq by (auto simp: Let_def)
        from Cons.IH[OF this] copy_only_copies(1)[OF Pair] Inr
        show ?thesis by (auto intro: only_copies_trans)
      qed
    qed
  qed
qed

section \<open>Terminating a task of the local-process engine\<close>

text \<open>
  C5, as stated: terminating a task whose status is already terminal, in particular
  completed, is a no-op that returns the existing status. The code does not look at the
  stored status: a task that the exit callback settled as completed is reported and
  stored as aborted after \<open>terminate_task\<close>.
\<close>

theorem terminate_completed_regresses:
  "poll_task (task_did_exit 7 ''{}'' COMPLETED \<lparr>taskmeta = Map.empty\<rparr>) = Some COMPLETED
   \<and> fst (terminate_task (task_did_exit 7 ''{}'' COMPLETED \<lparr>taskmeta = Map.empty\<rparr>)) = ABORTED
   \<and> poll_task (snd (terminate_task (task_did_exit 7 ''{}'' COMPLETED \<lparr>taskmeta = Map.empty\<rparr>)))
       = Some ABORTED"
  by (simp add: poll_task_def terminate_task_def task_did_exit_def stop_engine_def)

text \<open>
  C5, amended: \<open>terminate_task\<close> returns aborted and stores aborted whatever the status
  was, leaves every other entry of \<open>taskmeta\<close> alone, and terminating a second time
  changes nothing more.
\<close>

theorem terminate_always_aborts:
  "fst (terminate_task sh) = ABORTED
   \<and> poll_task (snd (terminate_task sh)) = Some ABORTED
   \<and> taskmeta (snd (terminate_task sh)) = (taskmeta sh)(''status'' \<mapsto> MStatus ABORTED)
   \<and> terminate_task (snd (terminate_task sh)) = terminate_task sh"
  by (simp add: poll_task_def terminate_task_def stop_engine_def)

theorem terminate_always_aborts_witness:
  "fst (terminate_task \<lparr>taskmeta = [''status'' \<mapsto> MStatus FAILED :: string taskmeta_value]\<rparr>) = ABORTED
   \<and> poll_task (snd (terminate_task \<lparr>taskmeta = [''status'' \<mapsto> MStatus FAILED :: string taskmeta_value]\<rparr>))
       = Some ABORTED"
  using terminate_always_aborts
    [of "\<lparr>taskmeta = [''status'' \<mapsto> MStatus FAILED :: string taskmeta_value]\<rparr>"]
  by simp

section \<open>Copying the logs\<close>

text \<open>
  C10: in every state, \<open>copy_logs_if_required\<close> copies no log file and does not mark
  \<open>savedLogs\<close>. When the step is not marked it returns at once with the state unchanged
  (the guard is the negation of the guard of the other steps); when the step is marked
  it only polls the metadata, which it drops. In both cases the progress record, the
  informational keys, the files and the directories are as before.
\<close>

theorem copy_logs_changes_nothing:
  assumes "copy_logs_if_required env s = (r, s')"
  shows "db_progress s' = db_progress s \<and> db_info s' = db_info s
         \<and> fs_files s' = fs_files s \<and> fs_dirs s' = fs_dirs s
         \<and> (if progress_has_completed s savedLogs
             then (\<exists>m. trace s' = trace s @ [Metadata m])
             else r = Inr () \<and> s' = s)"
  using assms
  by (auto simp: copy_logs_if_required_def dest!: metadata_frame split: if_splits prod.splits sum.splits)

text \<open>
  Both cases at an example: with \<open>savedLogs\<close> marked the only effect is one metadata
  poll; with it unmarked the call returns the state it was given.
\<close>

theorem copy_logs_changes_nothing_witness:
  "db_progress (snd (copy_logs_if_required (example_environment False []) (example_state {savedLogs} False)))
     = {savedLogs}
   \<and> fs_files (snd (copy_logs_if_required (example_environment False []) (example_state {savedLogs} False)))
     = Map.empty
   \<and> (\<exists>m. trace (snd (copy_logs_if_required (example_environment False []) (example_state {savedLogs} False)))
          = [Metadata m])
   \<and> copy_logs_if_required (example_environment False []) (example_state {} False)
     = (Inr (), example_state {} False)"
  using copy_logs_changes_nothing
          [OF surjective_pairing, of "example_environment False []" "example_state {savedLogs} False"]
        copy_logs_changes_nothing
          [OF surjective_pairing, of "example_environment False []" "example_state {} False"]
  by (simp add: example_state_def progress_has_completed_def prod_eq_iff)

section \<open>Saving the metadata\<close>

text \<open>
  C8: when \<open>savedMetadata\<close> is not yet marked, \<open>save_metadata_if_required\<close> on an engine
  that is not Cromwell raises the exception that names the engine (by its id), and the
  state, hence the progress record, is unchanged. On a Cromwell engine a normal return
  means that the raw metadata the engine returned has been written to
  \<open>metadata/metadata.json\<close> under the task path and that the step was marked after the
  write (the three events end the trace in this order); if the engine call raises, the
  step is not marked.
\<close>

theorem save_metadata_archives_or_fails:
  assumes "\<not> progress_has_completed s savedMetadata"
  shows "(if eng_is_Cromwell (engine env)
          then (case save_metadata_if_required env s of
                  (Inl err, s') \<Rightarrow> savedMetadata \<notin> db_progress s'
                     \<and> fst (eng_raw_metadata (engine env) (fst (get_engine_tid s)) (engine_state s)) = Inl err
                | (Inr u, s') \<Rightarrow>
                    (\<exists>meta. fst (eng_raw_metadata (engine env) (fst (get_engine_tid s)) (engine_state s)) = Inr meta
                       \<and> fs_files s' (get_task_path s @ ''metadata/metadata.json'') = Some (JsonDump meta)
                       \<and> trace s' = trace s @ [RawMetadata (Inr meta),
                                                WriteFile (get_task_path s @ ''metadata/metadata.json''),
                                                MarkCompleted savedMetadata]
                       \<and> db_progress s' = insert savedMetadata (db_progress s)))
          else save_metadata_if_required env s
                 = (Inl (DontKnowHowToSaveMetadata (eng_id (engine env))), s))"
  using assms
  by (auto simp: save_metadata_if_required_def progress_has_completed_def progress_mark_completed_def
        metadata_json_def get_task_path_def get_engine_tid_def Let_def
        split: prod.splits sum.splits)

text \<open>
  At the examples: the shell engine is refused by name and the state is untouched; for
  the Cromwell engine the dump \<open>{}\<close> is in \<open>/out/t1/metadata/metadata.json\<close>.
\<close>

theorem save_metadata_archives_or_fails_witness:
  "save_metadata_if_required (example_environment False []) (example_state {} False)
     = (Inl (DontKnowHowToSaveMetadata ''shell''), example_state {} False)
   \<and> (case save_metadata_if_required (example_environment True []) (example_state {} False) of
         (Inl err, s') \<Rightarrow> False
       | (Inr u, s') \<Rightarrow> fs_files s' ''/out/t1/metadata/metadata.json'' = Some (JsonDump ''{}'')
                          \<and> db_progress s' = {savedMetadata})"
  using save_metadata_archives_or_fails [of "example_state {} False" "example_environment False []"]
        save_metadata_archives_or_fails [of "example_state {} False" "example_environment True []"]
  by (auto simp: example_state_def example_environment_def example_engine_def
        progress_has_completed_def get_task_path_def get_task_path_for_def endswith_def
        get_engine_tid_def get_meta_info_def split: prod.splits sum.splits)

section \<open>Lemmas on output staging\<close>

lemma copy_raises_only_transport:
  "copy_output g fs d f v s = (Inl err, s') \<Longrightarrow> err = CollaboratorError ''cp_from''"
  "copy_shards_from g fs d f c vs s = (Inl err, s') \<Longrightarrow> err = CollaboratorError ''cp_from''"
  "copy_secondaries g fs d f secs s = (Inl err, s') \<Longrightarrow> err = CollaboratorError ''cp_from''"
proof (induction g fs d f v s and g fs d f c vs s and g fs d f secs s
       arbitrary: s' and s' and s'
       rule: copy_output_copy_shards_from_copy_secondaries.induct)
  case (2 g fs d f out s)
  then show ?case by (auto split: prod.splits sum.splits)
next
  case (3 g fs d f source s)
  then show ?case by (auto simp: Let_def cp_from_def split: if_splits)
next
  case (6 g fs d f c out outs s)
  then show ?case by (auto simp: Let_def split: prod.splits sum.splits)
next
  case (8 g fs d f sec secs s)
  then show ?case by (auto split: prod.splits sum.splits)
qed auto

lemma copy_each_raises:
  assumes "copy_each_output g fs v od vd (pre @ (n, PyObject t) # post) s = (r, s')"
    and "\<forall>(n', x) \<in> set pre. \<forall>t'. x \<noteq> PyObject t'"
  shows "r = Inl (DontKnowHowToHandleOutput t) \<or> r = Inl (CollaboratorError ''cp_from'')"
  using assms
proof (induction pre arbitrary: s)
  case Nil
  then show ?case by auto
next
  case (Cons a pre)
  obtain n' x where a: "a = (n', x)" by (cases a)
  let ?od = "if output_is_validating v n' then vd else od"
  from Cons.prems(2) a have nobj: "\<forall>t'. x \<noteq> PyObject t'" by auto
  obtain r1 s1 where
    first: "(case x of
               PyList outs \<Rightarrow> copy_sharded_outputs g fs ?od n' outs s
             | PyCromwellFile cf \<Rightarrow> copy_cromwell_output g fs ?od n' cf s
             | PyStr source \<Rightarrow> copy_output g fs ?od n' x s
             | PyObject t \<Rightarrow> (Inl (DontKnowHowToHandleOutput t), s)) = (r1, s1)"
    by fastforce
  have as_copy: "copy_output g fs ?od n' x s = (r1, s1)"
    using first nobj by (cases x) (auto simp: copy_sharded_outputs_def copy_cromwell_output_def)
  show ?case
  proof (cases r1)
    case (Inl e)
    then have "r = Inl e" using Cons.prems(1) a first by (simp add: Let_def)
    moreover have "e = CollaboratorError ''cp_from''"
      using as_copy Inl by (auto dest: copy_raises_only_transport(1))
    ultimately show ?thesis by simp
  next
    case (Inr u)
    then have "copy_each_output g fs v od vd (pre @ (n, PyObject t) # post) s1 = (r, s')"
      using Cons.prems(1) a first by (simp add: Let_def)
    then show ?thesis using Cons.IH Cons.prems(2) by auto
  qed
qed

lemma copy_each_raises_state:
  assumes "copy_each_output g fs v od vd outs s = (Inl err, s')"
  shows "db_progress s' = db_progress s"
  using copy_each_only_copies[OF assms] by (auto simp: only_copies_def)

lemma cp_from_ok_returns:
  assumes "\<And>a b. cp_from_ok fs a b"
  shows "cp_from fs a b s = (Inr (), s\<lparr>fs_files := (fs_files s)(b \<mapsto> CopyOf a),
                                     trace := trace s @ [CpFrom a b True]\<rparr>)"
  using assms by (simp add: cp_from_def)

lemma copy_returns_when_transport_ok:
  "(\<forall>a b. cp_from_ok fs a b) \<Longrightarrow> fst (copy_output g fs d f v s) = Inr ()"
  "(\<forall>a b. cp_from_ok fs a b) \<Longrightarrow> fst (copy_shards_from g fs d f c vs s) = Inr ()"
  "(\<forall>a b. cp_from_ok fs a b) \<Longrightarrow> fst (copy_secondaries g fs d f secs s) = Inr ()"
proof (induction g fs d f v s and g fs d f c vs s and g fs d f secs s
       rule: copy_output_copy_shards_from_copy_secondaries.induct)
  case (2 g fs d f out s)
  then show ?case by (auto split: prod.splits sum.splits)
next
  case (3 g fs d f source s)
  then show ?case by (simp add: Let_def cp_from_def)
next
  case (6 g fs d f c out outs s)
  then show ?case by (auto simp: Let_def split: prod.splits sum.splits)
next
  case (8 g fs d f sec secs s)
  then show ?case by (auto split: prod.splits sum.splits)
qed auto

lemma copy_each_raises_object:
  assumes "copy_each_output g fs v od vd (pre @ (n, PyObject t) # post) s = (r, s')"
    and "\<forall>(n', x) \<in> set pre. \<forall>t'. x \<noteq> PyObject t'"
    and ok: "\<forall>a b. cp_from_ok fs a b"
  shows "r = Inl (DontKnowHowToHandleOutput t)"
  using assms(1,2)
proof (induction pre arbitrary: s)
  case Nil
  then show ?case by auto
next
  case (Cons a pre)
  obtain n' x where a: "a = (n', x)" by (cases a)
  let ?od = "if output_is_validating v n' then vd else od"
  from Cons.prems(2) a have nobj: "\<forall>t'. x \<noteq> PyObject t'" by auto
  obtain r1 s1 where
    first: "(case x of
               PyList outs \<Rightarrow> copy_sharded_outputs g fs ?od n' outs s
             | PyCromwellFile cf \<Rightarrow> copy_cromwell_output g fs ?od n' cf s
             | PyStr source \<Rightarrow> copy_output g fs ?od n' x s
             | PyObject t \<Rightarrow> (Inl (DontKnowHowToHandleOutput t), s)) = (r1, s1)"
    by fastforce
  have as_copy: "copy_output g fs ?od n' x s = (r1, s1)"
    using first nobj by (cases x) (auto simp: copy_sharded_outputs_def copy_cromwell_output_def)
  have "r1 = Inr ()"
    using copy_returns_when_transport_ok(1)[OF ok, of g ?od n' x s] as_copy by simp
  then have "copy_each_output g fs v od vd (pre @ (n, PyObject t) # post) s1 = (r, s')"
    using Cons.prems(1) a first by (simp add: Let_def)
  then show ?case using Cons.IH Cons.prems(2) by auto
qed


section \<open>Marking the outputs as copied\<close>

text \<open>
  C7, as stated: whenever \<open>copy_outputs_if_required\<close> returns without raising and the
  step was not marked before, the step is marked afterwards, also when the engine
  returns an empty mapping. The code returns right after the fetch when the mapping is
  empty (\<open>if not outputs: return\<close>), before the mark.
\<close>

theorem empty_outputs_not_marked:
  "\<not> progress_has_completed (example_state {saveWorkflow, submitWorkflow} False) copiedOutputs
   \<and> fst (copy_outputs_if_required example_get_extension (example_environment True [])
            (example_state {saveWorkflow, submitWorkflow} False)) = Inr ()
   \<and> \<not> progress_has_completed
         (snd (copy_outputs_if_required example_get_extension (example_environment True [])
                 (example_state {saveWorkflow, submitWorkflow} False))) copiedOutputs"
  by code_simp

text \<open>
  C7, amended: when \<open>copy_outputs_if_required\<close> returns without raising and the step was
  not marked before, the step is marked afterwards exactly when the mapping that the
  engine returned is not empty. For an empty mapping the progress record is unchanged
  and the fetch is the only event.
\<close>

theorem outputs_copied_marked_iff_nonempty:
  assumes "\<not> progress_has_completed s copiedOutputs"
    and "copy_outputs_if_required g env s = (Inr (), s')"
  shows "\<exists>outs e'. eng_outputs_task (engine env) (fst (get_engine_tid s)) (engine_state s) = (Inr outs, e')
           \<and> (progress_has_completed s' copiedOutputs \<longleftrightarrow> outs \<noteq> [])
           \<and> (outs = [] \<longrightarrow> db_progress s' = db_progress s
                               \<and> trace s' = trace s @ [OutputsTask (Inr [])])"
proof -
  obtain etid s1 where g1: "get_engine_tid s = (etid, s1)" by (cases "get_engine_tid s")
  then have s1: "s1 = s\<lparr>tm_engine_tid := etid\<rparr>" by (rule get_engine_tid_eq)
  obtain r e' where call: "eng_outputs_task (engine env) etid (engine_state s1) = (r, e')"
    by (cases "eng_outputs_task (engine env) etid (engine_state s1)")
  define s2 where "s2 = s1\<lparr>engine_state := e', trace := trace s1 @ [OutputsTask r]\<rparr>"
  from assms g1 call obtain outs where r: "r = Inr outs"
    by (cases r) (auto simp: copy_outputs_if_required_def Let_def)
  have call': "eng_outputs_task (engine env) (fst (get_engine_tid s)) (engine_state s) = (Inr outs, e')"
    using call g1 s1 r by simp
  show ?thesis
  proof (cases "outs = []")
    case True
    then have "s' = s2"
      using assms g1 call r by (simp add: copy_outputs_if_required_def Let_def s2_def)
    then show ?thesis
      using call' True assms(1) s1 r by (simp add: s2_def progress_has_completed_def)
  next
    case False
    obtain r3 s3 where loop:
      "copy_each_output g (filescheme env) (truthy (get_meta_info s2 InfoKeys_validating))
         (get_task_path s2 @ ''outputs/'') (get_task_path s2 @ ''validation/'') outs s2 = (r3, s3)"
      by fastforce
    then have "r3 = Inr ()" and "s' = progress_mark_completed copiedOutputs s3"
      using assms g1 call r False
      by (cases r3; simp add: copy_outputs_if_required_def Let_def s2_def)+
    then show ?thesis
      using call' False by (simp add: progress_mark_completed_def progress_has_completed_def)
  qed
qed

theorem outputs_copied_marked_iff_nonempty_witness:
  "progress_has_completed
     (snd (copy_outputs_if_required example_get_extension
             (example_environment True [(''x'', PyStr ''/tmp/a.vcf'')])
             (example_state {saveWorkflow, submitWorkflow} False))) copiedOutputs
   \<and> db_progress
        (snd (copy_outputs_if_required example_get_extension (example_environment True [])
                (example_state {saveWorkflow, submitWorkflow} False)))
       = {saveWorkflow, submitWorkflow}"
proof -
  let ?s = "example_state {saveWorkflow, submitWorkflow} False"
  let ?e1 = "example_environment True [(''x'', PyStr ''/tmp/a.vcf'')]"
  let ?e0 = "example_environment True []"
  have n: "\<not> progress_has_completed ?s copiedOutputs" by code_simp
  have r1: "copy_outputs_if_required example_get_extension ?e1 ?s
              = (Inr (), snd (copy_outputs_if_required example_get_extension ?e1 ?s))"
    by (rule prod_eqI) (code_simp, simp)
  have r0: "copy_outputs_if_required example_get_extension ?e0 ?s
              = (Inr (), snd (copy_outputs_if_required example_get_extension ?e0 ?s))"
    by (rule prod_eqI) (code_simp, simp)
  from outputs_copied_marked_iff_nonempty[OF n r1] outputs_copied_marked_iff_nonempty[OF n r0]
  show ?thesis
    by (auto simp: example_environment_def example_engine_def example_state_def)
qed

section \<open>Output values of an unknown shape\<close>

text \<open>
  C9, as stated: a value that is neither a location string, nor a list, nor a
  \<open>CromwellFile\<close> makes the staging raise an error that names the output and the shape,
  also when the value is an element of a list, and the step is not marked. At the top
  level the exception is formatted from the type of the value alone; inside a list
  \<open>copy_output\<close> passes the value over, the call returns and the step is marked.
\<close>

theorem unknown_shape_in_list_is_passed_over:
  "fst (copy_outputs_if_required example_get_extension
          (example_environment True [(''x'', PyObject ''int'')])
          (example_state {saveWorkflow, submitWorkflow} False))
     = Inl (DontKnowHowToHandleOutput ''int'')
   \<and> fst (copy_outputs_if_required example_get_extension
          (example_environment True [(''y'', PyObject ''int'')])
          (example_state {saveWorkflow, submitWorkflow} False))
     = Inl (DontKnowHowToHandleOutput ''int'')
   \<and> fst (copy_outputs_if_required example_get_extension
          (example_environment True [(''x'', PyList [PyObject ''int''])])
          (example_state {saveWorkflow, submitWorkflow} False)) = Inr ()
   \<and> progress_has_completed
        (snd (copy_outputs_if_required example_get_extension
                (example_environment True [(''x'', PyList [PyObject ''int''])])
                (example_state {saveWorkflow, submitWorkflow} False))) copiedOutputs"
  by code_simp

text \<open>
  C9, amended: when the step is not yet marked and the mapping that the engine returned
  has, at its top level, a value of another type, \<open>copy_outputs_if_required\<close> raises and
  the step is not marked. For the first such value the exception is the one formatted
  from the type of that value (it does not carry the output name), unless the file
  transport raised on an output before it; with a transport that never raises it is
  always that exception. (Values of another type inside a list are not covered.)
\<close>

theorem unknown_top_level_shape_raises:
  assumes "\<not> progress_has_completed s copiedOutputs"
    and "eng_outputs_task (engine env) (fst (get_engine_tid s)) (engine_state s)
           = (Inr (pre @ (n, PyObject t) # post), e')"
    and "\<forall>(n', x) \<in> set pre. \<forall>t'. x \<noteq> PyObject t'"
  shows "\<exists>err s'. copy_outputs_if_required g env s = (Inl err, s')
           \<and> \<not> progress_has_completed s' copiedOutputs
           \<and> (err = DontKnowHowToHandleOutput t \<or> err = CollaboratorError ''cp_from'')
           \<and> ((\<forall>a b. cp_from_ok (filescheme env) a b) \<longrightarrow> err = DontKnowHowToHandleOutput t)"
proof -
  let ?outs = "pre @ (n, PyObject t) # post"
  obtain etid s1 where g1: "get_engine_tid s = (etid, s1)" by (cases "get_engine_tid s")
  then have s1: "s1 = s\<lparr>tm_engine_tid := etid\<rparr>" by (rule get_engine_tid_eq)
  have call: "eng_outputs_task (engine env) etid (engine_state s1) = (Inr ?outs, e')"
    using assms(2) g1 s1 by simp
  define s2 where "s2 = s1\<lparr>engine_state := e', trace := trace s1 @ [OutputsTask (Inr ?outs)]\<rparr>"
  obtain r3 s3 where loop:
    "copy_each_output g (filescheme env) (truthy (get_meta_info s2 InfoKeys_validating))
       (get_task_path s2 @ ''outputs/'') (get_task_path s2 @ ''validation/'') ?outs s2 = (r3, s3)"
    by fastforce
  from copy_each_raises[OF loop assms(3)]
  obtain err where err: "r3 = Inl err"
    and which: "err = DontKnowHowToHandleOutput t \<or> err = CollaboratorError ''cp_from''"
    by auto
  have res: "copy_outputs_if_required g env s = (Inl err, s3)"
    using assms(1) g1 call loop err by (simp add: copy_outputs_if_required_def Let_def s2_def)
  have "db_progress s3 = db_progress s2"
    using loop err by (auto dest: copy_each_raises_state)
  then have unmarked: "\<not> progress_has_completed s3 copiedOutputs"
    using assms(1) s1 by (simp add: s2_def progress_has_completed_def)
  have "(\<forall>a b. cp_from_ok (filescheme env) a b) \<longrightarrow> err = DontKnowHowToHandleOutput t"
    using copy_each_raises_object[OF loop assms(3)] err by auto
  with res unmarked which show ?thesis by blast
qed

theorem unknown_top_level_shape_raises_witness:
  "(\<exists>s'. copy_outputs_if_required example_get_extension
            (example_environment True [(''x'', PyStr ''/tmp/a.vcf''), (''y'', PyObject ''int'')])
            (example_state {saveWorkflow, submitWorkflow} False)
          = (Inl (DontKnowHowToHandleOutput ''int''), s')
        \<and> \<not> progress_has_completed s' copiedOutputs)"
proof -
  let ?s = "example_state {saveWorkflow, submitWorkflow} False"
  let ?env = "example_environment True [(''x'', PyStr ''/tmp/a.vcf''), (''y'', PyObject ''int'')]"
  have n: "\<not> progress_has_completed ?s copiedOutputs" by code_simp
  have c: "eng_outputs_task (engine ?env) (fst (get_engine_tid ?s)) (engine_state ?s)
             = (Inr ([(''x'', PyStr ''/tmp/a.vcf'')] @ (''y'', PyObject ''int'') # []), 0)"
    by (simp add: example_environment_def example_engine_def example_state_def)
  have p: "\<forall>(n', x) \<in> set [(''x'', PyStr ''/tmp/a.vcf'')]. \<forall>t'. x \<noteq> PyObject t'" by simp
  have ok: "\<forall>a b. cp_from_ok (filescheme ?env) a b" by (simp add: example_environment_def)
  from unknown_top_level_shape_raises[OF n c p, of example_get_extension] ok
  show ?thesis by blast
qed

section \<open>Routing of the outputs\<close>

lemma copied_append: "copied (xs @ ys) = copied xs @ copied ys"
  by (induction xs rule: copied.induct) auto

lemma run_copies_append:
  "run_copies fs (xs @ ys) s =
     (case run_copies fs xs s of (Inl err, s1) \<Rightarrow> (Inl err, s1) | (Inr u, s1) \<Rightarrow> run_copies fs ys s1)"
  by (induction xs arbitrary: s) (auto split: prod.splits sum.splits)

lemma shards_plan_enumerate:
  "shards_plan g dir name i outs
     = concat (map (\<lambda>(k, out). staging_plan g dir (name @ ''-shard-'' @ str_of_nat k) out)
                   (enumerate i outs))"
  by (induction outs arbitrary: i) simp_all

text \<open>The staging functions carry out the staging plan.\<close>

lemma copy_carries_out_plan:
  "copy_output g fs d f v s = run_copies fs (staging_plan g d f v) s"
  "copy_shards_from g fs d f c vs s = run_copies fs (shards_plan g d f c vs) s"
  "copy_secondaries g fs d f secs s
     = run_copies fs (map (\<lambda>sec. (location sec, d @ f @ extwdot g (location sec))) secs) s"
proof (induction g fs d f v s and g fs d f c vs s and g fs d f secs s
       rule: copy_output_copy_shards_from_copy_secondaries.induct)
  case (1 g fs d f outs s)
  then show ?case by simp
next
  case (2 g fs d f out s)
  show ?case
  proof (cases "copy_output g fs d f (PyStr (location out)) s")
    case (Pair r1 s1)
    have first: "cp_from fs (location out) (d @ f @ extwdot g (location out)) s = (r1, s1)"
      using Pair by (simp add: Let_def extwdot_def)
    show ?thesis
    proof (cases r1)
      case (Inl err)
      then show ?thesis using Pair first by simp
    next
      case (Inr u)
      from 2(2)[OF Pair[symmetric] Inr]
      show ?thesis using Pair first Inr by simp
    qed
  qed
next
  case (3 g fs d f source s)
  show ?case by (simp add: Let_def extwdot_def split: prod.splits sum.splits)
next
  case (4 g fs d f t s)
  show ?case by simp
next
  case (5 g fs d f c s)
  show ?case by simp
next
  case (6 g fs d f c out outs s)
  obtain r1 s1 where Pair: "copy_output g fs d (f @ ''-shard-'' @ str_of_nat c) out s = (r1, s1)"
    by (cases "copy_output g fs d (f @ ''-shard-'' @ str_of_nat c) out s")
  have first: "run_copies fs (staging_plan g d (f @ ''-shard-'' @ str_of_nat c) out) s = (r1, s1)"
    using 6(1)[OF refl] Pair by simp
  show ?case
  proof (cases r1)
    case (Inl err)
    then show ?thesis using Pair first by (simp add: Let_def run_copies_append)
  next
    case (Inr u)
    from 6(2)[OF refl Pair[symmetric] Inr]
    show ?thesis using Pair first Inr by (simp add: Let_def run_copies_append)
  qed
next
  case (7 g fs d f s)
  show ?case by simp
next
  case (8 g fs d f sec secs s)
  show ?case
  proof (cases "copy_output g fs d f (PyStr (location sec)) s")
    case (Pair r1 s1)
    have first: "cp_from fs (location sec) (d @ f @ extwdot g (location sec)) s = (r1, s1)"
      using Pair by (simp add: Let_def extwdot_def)
    show ?thesis
    proof (cases r1)
      case (Inl err)
      then show ?thesis using Pair first by simp
    next
      case (Inr u)
      from 8(2)[OF Pair[symmetric] Inr]
      show ?thesis using Pair first Inr by simp
    qed
  qed
qed

lemma run_copies_copied:
  "copied (trace (snd (run_copies fs plan s)))
     = copied (trace s) @ takeWhile (\<lambda>(a, b). cp_from_ok fs a b) plan
   \<and> (fst (run_copies fs plan s) = Inr () \<longleftrightarrow> (\<forall>(a, b) \<in> set plan. cp_from_ok fs a b))"
proof (induction plan arbitrary: s)
  case Nil
  show ?case by simp
next
  case (Cons p plan)
  obtain a b where p: "p = (a, b)" by (cases p)
  show ?case
  proof (cases "cp_from_ok fs a b")
    case True
    then have "run_copies fs (p # plan) s
                 = run_copies fs plan (s\<lparr>fs_files := (fs_files s)(b \<mapsto> CopyOf a),
                                          trace := trace s @ [CpFrom a b True]\<rparr>)"
      by (simp add: p cp_from_def)
    then show ?thesis using Cons True by (simp add: p copied_append)
  next
    case False
    then show ?thesis by (simp add: p cp_from_def copied_append)
  qed
qed


lemma copy_each_carries_out_plan:
  "copied (trace (snd (copy_each_output g fs val od vd outs s)))
     = copied (trace s)
       @ takeWhile (\<lambda>(a, b). cp_from_ok fs a b)
           (concat (map (\<lambda>(n, v). staging_plan g (if output_is_validating val n then vd else od) n v)
                        (takeWhile (\<lambda>(n, v). \<not> is_object v) outs)))
   \<and> (fst (copy_each_output g fs val od vd outs s) = Inr ()
        \<longleftrightarrow> (\<forall>(a, b) \<in> set (concat (map (\<lambda>(n, v). staging_plan g (if output_is_validating val n then vd else od) n v)
                                            (takeWhile (\<lambda>(n, v). \<not> is_object v) outs))).
               cp_from_ok fs a b)
            \<and> (\<forall>(n, v) \<in> set outs. \<not> is_object v))"
proof (induction outs arbitrary: s)
  case Nil
  show ?case by simp
next
  case (Cons a outs)
  obtain n v where a: "a = (n, v)" by (cases a)
  define ok where "ok = (\<lambda>(a, b). cp_from_ok fs a b)"
  define plan where
    "plan = (\<lambda>(n, v). staging_plan g (if output_is_validating val n then vd else od) n v)"
  define rest where "rest = concat (map plan (takeWhile (\<lambda>(n, v). \<not> is_object v) outs))"
  define dn where "dn = (if output_is_validating val n then vd else od)"
  define p1 where "p1 = staging_plan g dn n v"
  have IH: "copied (trace (snd (copy_each_output g fs val od vd outs s1)))
              = copied (trace s1) @ takeWhile ok rest
            \<and> (fst (copy_each_output g fs val od vd outs s1) = Inr ()
                 \<longleftrightarrow> (\<forall>x \<in> set rest. ok x) \<and> (\<forall>(n, v) \<in> set outs. \<not> is_object v))" for s1 :: "'a state"
    using Cons[of s1] unfolding ok_def plan_def rest_def .
  have goal: ?case
    if "copied (trace (snd (copy_each_output g fs val od vd (a # outs) s)))
          = copied (trace s)
            @ takeWhile ok (concat (map plan (takeWhile (\<lambda>(n, v). \<not> is_object v) (a # outs))))
        \<and> (fst (copy_each_output g fs val od vd (a # outs) s) = Inr ()
             \<longleftrightarrow> (\<forall>x \<in> set (concat (map plan (takeWhile (\<lambda>(n, v). \<not> is_object v) (a # outs)))). ok x)
                 \<and> (\<forall>(n, v) \<in> set (a # outs). \<not> is_object v))"
    using that unfolding ok_def plan_def .
  show ?case
  proof (rule goal, cases "is_object v")
    case True
    then obtain t where "v = PyObject t" by (cases v) auto
    then show "copied (trace (snd (copy_each_output g fs val od vd (a # outs) s)))
          = copied (trace s)
            @ takeWhile ok (concat (map plan (takeWhile (\<lambda>(n, v). \<not> is_object v) (a # outs))))
        \<and> (fst (copy_each_output g fs val od vd (a # outs) s) = Inr ()
             \<longleftrightarrow> (\<forall>x \<in> set (concat (map plan (takeWhile (\<lambda>(n, v). \<not> is_object v) (a # outs)))). ok x)
                 \<and> (\<forall>(n, v) \<in> set (a # outs). \<not> is_object v))"
      by (simp add: a)
  next
    case False
    obtain r1 s1 where run: "run_copies fs p1 s = (r1, s1)" by (cases "run_copies fs p1 s")
    have "copy_output g fs dn n v s = (r1, s1)"
      using run copy_carries_out_plan(1)[of g fs dn n v s] by (simp add: p1_def)
    then have disp: "(case v of
                 PyList outs \<Rightarrow> copy_sharded_outputs g fs dn n outs s
               | PyCromwellFile cf \<Rightarrow> copy_cromwell_output g fs dn n cf s
               | PyStr source \<Rightarrow> copy_output g fs dn n v s
               | PyObject t \<Rightarrow> (Inl (DontKnowHowToHandleOutput t), s)) = (r1, s1)"
      using False by (cases v) (auto simp: copy_sharded_outputs_def copy_cromwell_output_def)
    have step: "copy_each_output g fs val od vd (a # outs) s
                  = (case (case v of
                             PyList outs \<Rightarrow> copy_sharded_outputs g fs dn n outs s
                           | PyCromwellFile cf \<Rightarrow> copy_cromwell_output g fs dn n cf s
                           | PyStr source \<Rightarrow> copy_output g fs dn n v s
                           | PyObject t \<Rightarrow> (Inl (DontKnowHowToHandleOutput t), s)) of
                       (Inl err, s1) \<Rightarrow> (Inl err, s1)
                     | (Inr u, s1) \<Rightarrow> copy_each_output g fs val od vd outs s1)"
      unfolding dn_def a copy_each_output.simps Let_def ..
    from run_copies_copied[of fs p1 s] run
    have c1: "copied (trace s1) = copied (trace s) @ takeWhile ok p1"
      and ok1: "r1 = Inr () \<longleftrightarrow> (\<forall>x \<in> set p1. ok x)"
      by (simp_all add: ok_def)
    have pl: "concat (map plan (takeWhile (\<lambda>(n, v). \<not> is_object v) (a # outs))) = p1 @ rest"
      using False by (simp add: a plan_def p1_def dn_def rest_def)
    have obj: "(\<forall>(n, v) \<in> set (a # outs). \<not> is_object v) \<longleftrightarrow> (\<forall>(n, v) \<in> set outs. \<not> is_object v)"
      using False by (simp add: a)
    show "copied (trace (snd (copy_each_output g fs val od vd (a # outs) s)))
          = copied (trace s)
            @ takeWhile ok (concat (map plan (takeWhile (\<lambda>(n, v). \<not> is_object v) (a # outs))))
        \<and> (fst (copy_each_output g fs val od vd (a # outs) s) = Inr ()
             \<longleftrightarrow> (\<forall>x \<in> set (concat (map plan (takeWhile (\<lambda>(n, v). \<not> is_object v) (a # outs)))). ok x)
                 \<and> (\<forall>(n, v) \<in> set (a # outs). \<not> is_object v))"
    proof (cases r1)
      case (Inl err)
      then have res: "copy_each_output g fs val od vd (a # outs) s = (Inl err, s1)"
        unfolding step disp by simp
      from Inl ok1 obtain x where x: "x \<in> set p1" "\<not> ok x" by auto
      then have "takeWhile ok (p1 @ rest) = takeWhile ok p1" by (rule takeWhile_append1)
      moreover have "\<not> (\<forall>x \<in> set (p1 @ rest). ok x)" using x by auto
      ultimately show ?thesis unfolding pl res using c1 by simp
    next
      case (Inr u)
      then have res: "copy_each_output g fs val od vd (a # outs) s
                        = copy_each_output g fs val od vd outs s1"
        unfolding step disp by simp
      from Inr ok1 have good: "\<forall>x \<in> set p1. ok x" by simp
      then have t1: "takeWhile ok (p1 @ rest) = p1 @ takeWhile ok rest"
        by simp
      have t2: "takeWhile ok p1 = p1" using good by simp
      have all: "(\<forall>x \<in> set (p1 @ rest). ok x) \<longleftrightarrow> (\<forall>x \<in> set rest. ok x)"
        using good by auto
      show ?thesis
        unfolding pl res obj all t1 using IH[of s1] c1 t2 by simp
    qed
  qed
qed


text \<open>
  C4: when the step is not yet marked and the engine returns a mapping,
  \<open>copy_outputs_if_required\<close> carries out the staging plan of the outputs, output by
  output and copy by copy in order, each output in its directory: the validation
  directory when the task is validating and the part of the output name after its last
  dot starts with \<open>validated_\<close>, the outputs directory otherwise. By the plan a location
  \<open>source\<close> of output \<open>name\<close> is copied to the directory under \<open>name\<close> with the extension
  of \<open>source\<close> appended when it has one, and the elements of a sequence, whatever their
  shapes, are staged under \<open>name-shard-0\<close>, \<open>name-shard-1\<close>, ... The copying stops only
  at a copy on which the transport raises or at a top-level value of another type, and
  it returns normally exactly when neither occurs.
\<close>

theorem outputs_are_routed_by_shape:
  assumes "\<not> progress_has_completed s copiedOutputs"
    and "eng_outputs_task (engine env) (fst (get_engine_tid s)) (engine_state s) = (Inr outs, e')"
  shows "copied (trace (snd (copy_outputs_if_required g env s)))
           = copied (trace s)
             @ takeWhile (\<lambda>(a, b). cp_from_ok (filescheme env) a b)
                 (concat (map (\<lambda>(n, v). staging_plan g (staging_dir s n) n v)
                              (takeWhile (\<lambda>(n, v). \<not> is_object v) outs)))
         \<and> (fst (copy_outputs_if_required g env s) = Inr ()
              \<longleftrightarrow> (\<forall>(a, b) \<in> set (concat (map (\<lambda>(n, v). staging_plan g (staging_dir s n) n v)
                                                  (takeWhile (\<lambda>(n, v). \<not> is_object v) outs))).
                     cp_from_ok (filescheme env) a b)
                  \<and> (\<forall>(n, v) \<in> set outs. \<not> is_object v))
         \<and> (\<forall>dir name vs.
               staging_plan g dir name (PyList vs)
                 = concat (map (\<lambda>(i, v). staging_plan g dir (name @ ''-shard-'' @ str_of_nat i) v)
                               (enumerate 0 vs)))"
proof -
  obtain etid s1 where g1: "get_engine_tid s = (etid, s1)" by (cases "get_engine_tid s")
  then have s1: "s1 = s\<lparr>tm_engine_tid := etid\<rparr>" by (rule get_engine_tid_eq)
  have call: "eng_outputs_task (engine env) etid (engine_state s1) = (Inr outs, e')"
    using assms(2) g1 s1 by simp
  define s2 where "s2 = s1\<lparr>engine_state := e', trace := trace s1 @ [OutputsTask (Inr outs)]\<rparr>"
  define val where "val = truthy (get_meta_info s2 InfoKeys_validating)"
  define od where "od = get_task_path s2 @ ''outputs/''"
  define vd where "vd = get_task_path s2 @ ''validation/''"
  define plan where
    "plan = concat (map (\<lambda>(n, v). staging_plan g (staging_dir s n) n v)
                        (takeWhile (\<lambda>(n, v). \<not> is_object v) outs))"
  have dirs: "(if output_is_validating val n then vd else od) = staging_dir s n" for n
    by (simp add: staging_dir_def output_is_validating_def get_meta_info_def get_task_path_def
          s2_def s1 val_def od_def vd_def)
  have c2: "copied (trace s2) = copied (trace s)"
    by (simp add: s2_def s1 copied_append)
  obtain r3 s3 where loop: "copy_each_output g (filescheme env) val od vd outs s2 = (r3, s3)"
    by (cases "copy_each_output g (filescheme env) val od vd outs s2")
  from copy_each_carries_out_plan[of g "filescheme env" val od vd outs s2] loop
  have c3: "copied (trace s3)
              = copied (trace s) @ takeWhile (\<lambda>(a, b). cp_from_ok (filescheme env) a b) plan"
    and r3: "r3 = Inr () \<longleftrightarrow> (\<forall>(a, b) \<in> set plan. cp_from_ok (filescheme env) a b)
                               \<and> (\<forall>(n, v) \<in> set outs. \<not> is_object v)"
    unfolding dirs plan_def[symmetric] c2 by simp_all
  have res: "copy_outputs_if_required g env s
               = (if outs = [] then (Inr (), s2)
                  else case r3 of Inl err \<Rightarrow> (Inl err, s3)
                       | Inr u \<Rightarrow> (Inr (), progress_mark_completed copiedOutputs s3))"
    using assms(1) g1 call loop
    by (simp add: copy_outputs_if_required_def Let_def s2_def val_def od_def vd_def
             split: sum.splits)
  have "copied (trace (snd (copy_outputs_if_required g env s)))
          = copied (trace s) @ takeWhile (\<lambda>(a, b). cp_from_ok (filescheme env) a b) plan
        \<and> (fst (copy_outputs_if_required g env s) = Inr ()
             \<longleftrightarrow> (\<forall>(a, b) \<in> set plan. cp_from_ok (filescheme env) a b)
                 \<and> (\<forall>(n, v) \<in> set outs. \<not> is_object v))"
  proof (cases "outs = []")
    case True
    then show ?thesis unfolding res using c2 by (simp add: plan_def)
  next
    case False
    show ?thesis
    proof (cases r3)
      case (Inl err)
      then show ?thesis unfolding res using False c3 r3 by simp
    next
      case (Inr u)
      then show ?thesis unfolding res using False c3 r3
        by (simp add: progress_mark_completed_def copied_append)
    qed
  qed
  moreover have "\<forall>dir name vs.
               staging_plan g dir name (PyList vs)
                 = concat (map (\<lambda>(i, v). staging_plan g dir (name @ ''-shard-'' @ str_of_nat i) v)
                               (enumerate 0 vs))"
    by (simp add: shards_plan_enumerate)
  ultimately show ?thesis unfolding plan_def by blast
qed

text \<open>
  The examples of the spec: output \<open>x\<close> from \<open>/tmp/a.vcf\<close> lands at \<open>outputs/x.vcf\<close>; the
  shards \<open>/tmp/a.txt\<close> and \<open>/tmp/b.txt\<close> of \<open>x\<close> land at \<open>outputs/x-shard-0.txt\<close> and
  \<open>outputs/x-shard-1.txt\<close>; for a validating task, the output \<open>validated_x\<close>, here a
  sequence of one location with a secondary file, lands in the validation directory.
\<close>

theorem outputs_are_routed_by_shape_witness:
  "copied (trace (snd (copy_outputs_if_required example_get_extension
                         (example_environment True [(''x'', PyStr ''/tmp/a.vcf'')])
                         (example_state {} False))))
     = [(''/tmp/a.vcf'', ''/out/t1/outputs/x.vcf'')]
   \<and> copied (trace (snd (copy_outputs_if_required example_get_extension
                         (example_environment True [(''x'', PyList [PyStr ''/tmp/a.txt'', PyStr ''/tmp/b.txt''])])
                         (example_state {} False))))
     = [(''/tmp/a.txt'', ''/out/t1/outputs/x-shard-0.txt''),
        (''/tmp/b.txt'', ''/out/t1/outputs/x-shard-1.txt'')]
   \<and> copied (trace (snd (copy_outputs_if_required example_get_extension
                         (example_environment True
                            [(''validated_x'',
                              PyList [PyCromwellFile
                                        (CromwellFile ''/tmp/a.bam'' [CromwellFile ''/tmp/a.bai'' []])])])
                         (example_state {} True))))
     = [(''/tmp/a.bam'', ''/out/t1/validation/validated_x-shard-0.bam''),
        (''/tmp/a.bai'', ''/out/t1/validation/validated_x-shard-0.bai'')]"
proof -
  have call: "\<And>outs val. eng_outputs_task (engine (example_environment True outs))
                 (fst (get_engine_tid (example_state {} val))) (engine_state (example_state {} val))
               = (Inr outs, 0)"
    by (simp add: example_environment_def example_engine_def example_state_def)
  have fresh: "\<And>val. \<not> progress_has_completed (example_state {} val) copiedOutputs"
    by (simp add: progress_has_completed_def example_state_def)
  have ok: "\<And>outs. cp_from_ok (filescheme (example_environment True outs)) = (\<lambda>a b. True)"
    by (simp add: example_environment_def)
  have d1: "staging_dir (example_state {} False) ''x'' = ''/out/t1/outputs/''" by code_simp
  have d2: "staging_dir (example_state {} True) ''validated_x'' = ''/out/t1/validation/''"
    by code_simp
  have e1: "extwdot example_get_extension ''/tmp/a.vcf'' = ''.vcf''" by code_simp
  have e2: "extwdot example_get_extension ''/tmp/a.txt'' = ''.txt''" by code_simp
  have e3: "extwdot example_get_extension ''/tmp/b.txt'' = ''.txt''" by code_simp
  have e4: "extwdot example_get_extension ''/tmp/a.bam'' = ''.bam''" by code_simp
  have e5: "extwdot example_get_extension ''/tmp/a.bai'' = ''.bai''" by code_simp
  have n0: "str_of_nat 0 = ''0''" by code_simp
  have n1: "str_of_nat (Suc 0) = ''1''" by code_simp
  have tr: "\<And>val. trace (example_state {} val) = []" by (simp add: example_state_def)
  note outputs_are_routed_by_shape
         [where g = example_get_extension and s = "example_state {} False" and e' = 0
            and env = "example_environment True [(''x'', PyStr ''/tmp/a.vcf'')]"
            and outs = "[(''x'', PyStr ''/tmp/a.vcf'')]", OF fresh call, THEN conjunct1]
       outputs_are_routed_by_shape
         [where g = example_get_extension and s = "example_state {} False" and e' = 0
            and env = "example_environment True [(''x'', PyList [PyStr ''/tmp/a.txt'', PyStr ''/tmp/b.txt''])]"
            and outs = "[(''x'', PyList [PyStr ''/tmp/a.txt'', PyStr ''/tmp/b.txt''])]",
          OF fresh call, THEN conjunct1]
       outputs_are_routed_by_shape
         [where g = example_get_extension and s = "example_state {} True" and e' = 0
            and env = "example_environment True
                            [(''validated_x'',
                              PyList [PyCromwellFile
                                        (CromwellFile ''/tmp/a.bam'' [CromwellFile ''/tmp/a.bai'' []])])]"
            and outs = "[(''validated_x'',
                              PyList [PyCromwellFile
                                        (CromwellFile ''/tmp/a.bam'' [CromwellFile ''/tmp/a.bai'' []])])]",
          OF fresh call, THEN conjunct1]
  then show ?thesis
    by (simp add: d1 d2 e1 e2 e3 e4 e5 n0 n1 tr ok)
qed

section \<open>Lemmas on traces and steps\<close>

lemma marks_append: "marks (xs @ ys) = marks xs @ marks ys"
  by (induction xs rule: marks.induct) auto

lemma starts_append: "starts (xs @ ys) = starts xs + starts ys"
  by (simp add: starts_def)

lemma last_event_append:
  "last_event (xs @ ys) = (if ys = [] then last_event xs else Some (last ys))"
  by (simp add: last_event_def)

lemma marks_justified_append:
  "marks_justified (last_event tr) (xs @ ys)
     = (marks_justified (last_event tr) xs \<and> marks_justified (last_event (tr @ xs)) ys)"
proof (induction xs arbitrary: tr)
  case Nil
  then show ?case by simp
next
  case (Cons x xs)
  have "Some x = last_event (tr @ [x])" by (simp add: last_event_def)
  with Cons[of "tr @ [x]"] show ?case by simp
qed

lemma no_marks_justified: "marks evs = [] \<Longrightarrow> marks_justified p evs"
  by (induction evs arbitrary: p rule: marks.induct) auto

lemma advances_refl: "advances s s"
  by (simp add: advances_def)

lemma advances_trans:
  assumes "advances s s1" and "advances s1 s2"
  shows "advances s s2"
proof -
  from assms(1) obtain e1 where
    1: "trace s1 = trace s @ e1" "db_progress s1 = db_progress s \<union> set (marks e1)"
       "marks_justified (last_event (trace s)) e1"
    by (auto simp: advances_def)
  from assms(2) obtain e2 where
    2: "trace s2 = trace s1 @ e2" "db_progress s2 = db_progress s1 \<union> set (marks e2)"
       "marks_justified (last_event (trace s1)) e2"
    by (auto simp: advances_def)
  have "trace s2 = trace s @ (e1 @ e2)" using 1 2 by simp
  moreover have "db_progress s2 = db_progress s \<union> set (marks (e1 @ e2))"
    using 1 2 by (auto simp: marks_append)
  moreover have "marks_justified (last_event (trace s)) (e1 @ e2)"
    using 1 2 by (simp add: marks_justified_append)
  ultimately show ?thesis unfolding advances_def by blast
qed

lemma advances_mono: "advances s s' \<Longrightarrow> db_progress s \<subseteq> db_progress s'"
  by (auto simp: advances_def)

lemma quiet_refl: "quiet s s"
  by (simp add: quiet_def starts_def)

lemma quiet_same: "db_progress s' = db_progress s \<Longrightarrow> trace s' = trace s \<Longrightarrow> quiet s s'"
  by (simp add: quiet_def starts_def)

lemma quiet_trans:
  assumes "quiet s s1" and "quiet s1 s2"
  shows "quiet s s2"
proof -
  from assms(1) obtain e1 where
    1: "trace s1 = trace s @ e1" "marks e1 = []" "starts e1 = 0" by (auto simp: quiet_def)
  from assms(2) obtain e2 where
    2: "trace s2 = trace s1 @ e2" "marks e2 = []" "starts e2 = 0" by (auto simp: quiet_def)
  have "trace s2 = trace s @ (e1 @ e2) \<and> marks (e1 @ e2) = [] \<and> starts (e1 @ e2) = 0"
    using 1 2 by (simp add: marks_append starts_append)
  then show ?thesis using assms unfolding quiet_def by metis
qed

lemma quiet_advances: "quiet s s' \<Longrightarrow> advances s s'"
  by (auto simp: quiet_def advances_def no_marks_justified)

lemma quiet_starts: "quiet s s' \<Longrightarrow> starts (trace s') = starts (trace s)"
  by (auto simp: quiet_def starts_append)

lemma quiet_progress: "quiet s s' \<Longrightarrow> db_progress s' = db_progress s"
  by (simp add: quiet_def)

lemma copies_no_marks:
  "\<forall>ev \<in> set evs. \<exists>a b ok. ev = CpFrom a b ok \<and> P ok \<Longrightarrow> marks evs = [] \<and> starts evs = 0"
  by (induction evs) (auto simp: starts_def)

lemma only_copies_quiet: "only_copies r s s' \<Longrightarrow> quiet s s'"
  unfolding only_copies_def quiet_def
  using copies_no_marks[where P = "\<lambda>ok. r = Inr () \<longrightarrow> ok"] by blast

lemma metadata_quiet: "metadata env s = (r, s') \<Longrightarrow> quiet s s'"
  by (auto simp: quiet_def starts_def dest!: metadata_frame)

lemma get_engine_tid_quiet: "get_engine_tid s = (t, s') \<Longrightarrow> quiet s s'"
  by (auto dest!: get_engine_tid_eq simp: quiet_def starts_def)

lemma mark_after:
  assumes "quiet s s1" and "last_event (trace s1) = Some ev" and "justifies ev k"
  shows "advances s (progress_mark_completed k s1)"
proof -
  have "advances s1 (progress_mark_completed k s1)"
    using assms(2,3) by (auto simp: advances_def progress_mark_completed_def)
  with quiet_advances[OF assms(1)] show ?thesis by (rule advances_trans)
qed

lemma mark_starts: "starts (trace (progress_mark_completed k s)) = starts (trace s)"
  by (simp add: progress_mark_completed_def starts_def)

lemma mark_progress: "db_progress (progress_mark_completed k s) = insert k (db_progress s)"
  by (simp add: progress_mark_completed_def)


lemma advances_events:
  assumes "trace s' = trace s @ evs" and "marks evs = []" and "db_progress s' = db_progress s"
  shows "advances s s'"
  unfolding advances_def
  by (rule exI[of _ evs]) (simp add: assms no_marks_justified)

lemma advances_effect_mark:
  assumes "trace s' = trace s @ evs @ [ev, MarkCompleted k]" and "marks (evs @ [ev]) = []"
    and "justifies ev k" and "db_progress s' = insert k (db_progress s)"
  shows "advances s s'"
proof -
  have a: "marks_justified (last_event (trace s)) (evs @ [ev])"
    using assms(2) by (rule no_marks_justified)
  have b: "marks_justified (last_event (trace s @ (evs @ [ev]))) [MarkCompleted k]"
    using assms(3) by (simp add: last_event_def)
  have "marks_justified (last_event (trace s)) ((evs @ [ev]) @ [MarkCompleted k])"
    using a b marks_justified_append[of "trace s" "evs @ [ev]" "[MarkCompleted k]"] by blast
  moreover have "marks ((evs @ [ev]) @ [MarkCompleted k]) = [k]"
    unfolding marks_append[of "evs @ [ev]"] using assms(2) by simp
  ultimately show ?thesis
    unfolding advances_def
    by (intro exI[of _ "(evs @ [ev]) @ [MarkCompleted k]"]) (simp add: assms(1,4))
qed

section \<open>The steps, one by one\<close>

lemma prepare_step:
  assumes "prepare_and_output_workflow_to_evaluate_if_required j w v h s = (r, s')"
  shows "advances s s'" and "starts (trace s') = starts (trace s)"
    and "case r of Inl err \<Rightarrow> db_progress s' = db_progress s
               | Inr w' \<Rightarrow> db_progress s' = insert saveWorkflow (db_progress s)"
proof -
  show "advances s s'"
    using assms
    by (auto simp: prepare_and_output_workflow_to_evaluate_if_required_def Let_def advances_def
          progress_mark_completed_def progress_has_completed_def last_event_def
          split: if_splits option.splits)
  show "starts (trace s') = starts (trace s)"
    using assms
    by (auto simp: prepare_and_output_workflow_to_evaluate_if_required_def Let_def
          progress_mark_completed_def starts_def split: if_splits option.splits)
  show "case r of Inl err \<Rightarrow> db_progress s' = db_progress s
               | Inr w' \<Rightarrow> db_progress s' = insert saveWorkflow (db_progress s)"
    using assms
    by (auto simp: prepare_and_output_workflow_to_evaluate_if_required_def Let_def
          progress_mark_completed_def progress_has_completed_def split: if_splits option.splits)
qed

lemma submit_skipped:
  "progress_has_completed s submitWorkflow \<Longrightarrow> submit_workflow_if_required j env w s = (Inr (), s)"
  by (simp add: submit_workflow_if_required_def)

lemma submit_started:
  assumes "\<not> progress_has_completed s submitWorkflow"
    and "submit_workflow_if_required j env w s = (Inr (), s')"
  shows "\<exists>a b c t. trace s' = trace s @ [StartFromPaths a b c (Inr t), MarkCompleted submitWorkflow]"
    and "db_progress s' = insert submitWorkflow (db_progress s)"
  using assms
  by (auto simp: submit_workflow_if_required_def Let_def progress_mark_completed_def
        add_meta_info_def get_engine_tid_def split: sum.splits prod.splits if_splits)

lemma submit_raised:
  assumes "submit_workflow_if_required j env w s = (Inl err, s')"
  shows "db_progress s' = db_progress s"
    and "trace s' = trace s \<or> (\<exists>a b c e. trace s' = trace s @ [StartFromPaths a b c (Inl e)])"
  using assms
  by (auto simp: submit_workflow_if_required_def Let_def progress_mark_completed_def
        add_meta_info_def get_engine_tid_def split: sum.splits prod.splits if_splits)

lemma submit_step:
  assumes "submit_workflow_if_required j env w s = (r, s')"
  shows "advances s s'"
    and "case r of Inl err \<Rightarrow> db_progress s' = db_progress s
               | Inr u \<Rightarrow> db_progress s' = insert submitWorkflow (db_progress s)"
proof -
  show "advances s s'"
  proof (cases r)
    case (Inl err)
    from submit_raised[OF assms[unfolded Inl]]
    have db: "db_progress s' = db_progress s"
      and tr: "trace s' = trace s \<or> (\<exists>a b c e. trace s' = trace s @ [StartFromPaths a b c (Inl e)])"
      by simp_all
    from tr show ?thesis
    proof
      assume "trace s' = trace s"
      then show ?thesis using db by (intro advances_events[where evs = "[]"]) simp_all
    next
      assume "\<exists>a b c e. trace s' = trace s @ [StartFromPaths a b c (Inl e)]"
      then obtain a b c e where "trace s' = trace s @ [StartFromPaths a b c (Inl e)]" by blast
      then show ?thesis using db
        by (intro advances_events[where evs = "[StartFromPaths a b c (Inl e)]"]) simp_all
    qed
  next
    case (Inr u)
    show ?thesis
    proof (cases "progress_has_completed s submitWorkflow")
      case True
      then show ?thesis using assms by (simp add: submit_skipped advances_refl)
    next
      case False
      from submit_started[OF False assms[unfolded Inr, simplified]]
      obtain a b c t where
        tr: "trace s' = trace s @ [StartFromPaths a b c (Inr t), MarkCompleted submitWorkflow]"
        and db: "db_progress s' = insert submitWorkflow (db_progress s)"
        by blast
      show ?thesis
        by (rule advances_effect_mark[where evs = "[]" and ev = "StartFromPaths a b c (Inr t)"
              and k = submitWorkflow]) (simp_all add: tr db)
    qed
  qed
  show "case r of Inl err \<Rightarrow> db_progress s' = db_progress s
               | Inr u \<Rightarrow> db_progress s' = insert submitWorkflow (db_progress s)"
  proof (cases r)
    case (Inl err)
    with submit_raised(1)[OF assms[unfolded Inl]] show ?thesis by simp
  next
    case (Inr u)
    show ?thesis
    proof (cases "progress_has_completed s submitWorkflow")
      case True
      then show ?thesis using assms Inr
        by (auto simp: submit_skipped progress_has_completed_def)
    next
      case False
      with submit_started(2)[OF False assms[unfolded Inr, simplified]] Inr show ?thesis by simp
    qed
  qed
qed

lemma save_metadata_step:
  assumes "save_metadata_if_required env s = (r, s')"
  shows "advances s s'" and "starts (trace s') = starts (trace s)"
    and "case r of Inl err \<Rightarrow> db_progress s' = db_progress s
               | Inr u \<Rightarrow> db_progress s' = insert savedMetadata (db_progress s)"
proof -
  show "advances s s'"
    using assms
    by (auto simp: save_metadata_if_required_def Let_def advances_def get_engine_tid_def
          progress_mark_completed_def progress_has_completed_def last_event_def
          split: if_splits sum.splits prod.splits)
  show "starts (trace s') = starts (trace s)"
    using assms
    by (auto simp: save_metadata_if_required_def Let_def get_engine_tid_def
          progress_mark_completed_def starts_def split: if_splits sum.splits prod.splits)
  show "case r of Inl err \<Rightarrow> db_progress s' = db_progress s
               | Inr u \<Rightarrow> db_progress s' = insert savedMetadata (db_progress s)"
    using assms
    by (auto simp: save_metadata_if_required_def Let_def get_engine_tid_def
          progress_mark_completed_def progress_has_completed_def
          split: if_splits sum.splits prod.splits)
qed

lemma copy_outputs_step:
  assumes "copy_outputs_if_required g env s = (r, s')"
  shows "advances s s'" and "starts (trace s') = starts (trace s)"
    and "db_progress s' = db_progress s \<or> db_progress s' = insert copiedOutputs (db_progress s)"
proof -
  have "advances s s' \<and> starts (trace s') = starts (trace s)
        \<and> (db_progress s' = db_progress s \<or> db_progress s' = insert copiedOutputs (db_progress s))"
  proof (cases "progress_has_completed s copiedOutputs")
    case True
    then have "s' = s" using assms by (simp add: copy_outputs_if_required_def)
    then show ?thesis by (simp add: advances_refl)
  next
    case False
    obtain etid s1 where g1: "get_engine_tid s = (etid, s1)" by (cases "get_engine_tid s")
    then have s1: "s1 = s\<lparr>tm_engine_tid := etid\<rparr>" by (rule get_engine_tid_eq)
    obtain r2 e' where call: "eng_outputs_task (engine env) etid (engine_state s1) = (r2, e')"
      by (cases "eng_outputs_task (engine env) etid (engine_state s1)")
    define s2 where "s2 = s1\<lparr>engine_state := e', trace := trace s1 @ [OutputsTask r2]\<rparr>"
    have q2: "quiet s s2"
      unfolding quiet_def
      by (simp add: s2_def s1 starts_def)
    have l2: "last_event (trace s2) = Some (OutputsTask r2)"
      by (simp add: s2_def last_event_def)
    show ?thesis
    proof (cases r2)
      case (Inl err)
      then have "s' = s2" using assms False g1 call
        by (simp add: copy_outputs_if_required_def Let_def s2_def)
      then show ?thesis using q2 by (simp add: quiet_advances quiet_starts quiet_progress)
    next
      case (Inr outs)
      show ?thesis
      proof (cases "outs = []")
        case True
        then have "s' = s2" using assms False g1 call Inr
          by (simp add: copy_outputs_if_required_def Let_def s2_def)
        then show ?thesis using q2 by (simp add: quiet_advances quiet_starts quiet_progress)
      next
        case nonempty: False
        obtain r3 s3 where loop:
          "copy_each_output g (filescheme env) (truthy (get_meta_info s2 InfoKeys_validating))
             (get_task_path s2 @ ''outputs/'') (get_task_path s2 @ ''validation/'') outs s2 = (r3, s3)"
          by fastforce
        from copy_each_only_copies[OF loop]
        have oc: "only_copies (Inr ()) s2 s3 \<or> only_copies r3 s2 s3" by blast
        then have q3: "quiet s2 s3" by (auto dest: only_copies_quiet)
        have q: "quiet s s3" using q2 q3 by (rule quiet_trans)
        show ?thesis
        proof (cases r3)
          case (Inl err)
          then have "s' = s3" using assms False g1 call Inr nonempty loop
            by (simp add: copy_outputs_if_required_def Let_def s2_def)
          then show ?thesis using q by (simp add: quiet_advances quiet_starts quiet_progress)
        next
          case r3: (Inr u)
          then have s': "s' = progress_mark_completed copiedOutputs s3"
            using assms False g1 call Inr nonempty loop
            by (simp add: copy_outputs_if_required_def Let_def s2_def)
          from oc r3 have "only_copies (Inr ()) s2 s3" by auto
          then have "\<exists>evs. trace s3 = trace s2 @ evs
                        \<and> (\<forall>ev \<in> set evs. \<exists>a b ok. ev = CpFrom a b ok \<and> ok)"
            unfolding only_copies_def by simp
          then obtain evs where
            tr: "trace s3 = trace s2 @ evs"
            and ok: "\<forall>ev \<in> set evs. \<exists>a b ok. ev = CpFrom a b ok \<and> ok"
            by blast
          have "\<exists>ev. last_event (trace s3) = Some ev \<and> justifies ev copiedOutputs"
          proof (cases "evs = []")
            case True
            then show ?thesis using tr l2 Inr nonempty by simp
          next
            case False
            then have mem: "last evs \<in> set evs" by simp
            have "\<exists>a b ok. last evs = CpFrom a b ok \<and> ok" by (rule bspec[OF ok mem])
            then obtain a b ok' where "last evs = CpFrom a b ok'" and "ok'" by (elim exE conjE)
            then have "last evs = CpFrom a b True" by simp
            then show ?thesis using tr False by (simp add: last_event_def)
          qed
          then obtain ev where "last_event (trace s3) = Some ev" "justifies ev copiedOutputs"
            by blast
          from mark_after[OF q this] have "advances s s'" by (simp add: s')
          then show ?thesis
            using q by (simp add: s' mark_starts mark_progress quiet_starts quiet_progress)
        qed
      qed
    qed
  qed
  then show "advances s s'" and "starts (trace s') = starts (trace s)"
    and "db_progress s' = db_progress s \<or> db_progress s' = insert copiedOutputs (db_progress s)"
    by simp_all
qed

lemma metadata_final_poll:
  assumes "metadata env s = (Inr (Some m), s')"
  shows "\<exists>m0. trace s' = trace s @ [Metadata (Inr (Some m0))] \<and> md_status m0 = md_status m"
  using assms
  by (auto simp: metadata_def Let_def split: prod.splits sum.splits option.splits
           dest!: get_engine_tid_eq)

lemma wait_loop_polls:
  assumes "wait_loop env0 st0 s0 = Some y0"
  shows "quiet s0 (snd y0)
         \<and> (fst y0 = Inr () \<longrightarrow> (in_final_states st0 \<and> snd y0 = s0)
               \<or> (\<exists>ev. last_event (trace (snd y0)) = Some ev \<and> justifies ev workflowMovedToFinalState))"
proof (rule wait_loop.raw_induct
        [where P = "\<lambda>env st s y. quiet s (snd y)
           \<and> (fst y = Inr () \<longrightarrow> (in_final_states st \<and> snd y = s)
                 \<or> (\<exists>ev. last_event (trace (snd y)) = Some ev \<and> justifies ev workflowMovedToFinalState))",
         OF _ assms])
  fix loop :: "'a Environment \<Rightarrow> task_status option \<Rightarrow> 'a state \<Rightarrow> ((error + unit) \<times> 'a state) option"
  fix env st s y
  assume IH: "\<And>env st s y. loop env st s = Some y \<Longrightarrow>
     quiet s (snd y)
     \<and> (fst y = Inr () \<longrightarrow> (in_final_states st \<and> snd y = s)
           \<or> (\<exists>ev. last_event (trace (snd y)) = Some ev \<and> justifies ev workflowMovedToFinalState))"
  assume body: "(if in_final_states st then Some (Inr (), s)
      else case metadata env s of
             (Inl err, s1) \<Rightarrow> Some (Inl err, s1)
           | (Inr meta, s1) \<Rightarrow> loop env (case meta of None \<Rightarrow> st | Some m \<Rightarrow> md_status m) s1) = Some y"
  show "quiet s (snd y)
     \<and> (fst y = Inr () \<longrightarrow> (in_final_states st \<and> snd y = s)
           \<or> (\<exists>ev. last_event (trace (snd y)) = Some ev \<and> justifies ev workflowMovedToFinalState))"
  proof (cases "in_final_states st")
    case True
    then have "y = (Inr (), s)" using body by simp
    then show ?thesis using True by (simp add: quiet_refl)
  next
    case False
    obtain r1 s1 where m: "metadata env s = (r1, s1)" by (cases "metadata env s")
    have q1: "quiet s s1" using m by (rule metadata_quiet)
    show ?thesis
    proof (cases r1)
      case (Inl err)
      then have "y = (Inl err, s1)" using body False m by simp
      then show ?thesis using q1 by simp
    next
      case (Inr meta)
      let ?st' = "case meta of None \<Rightarrow> st | Some m \<Rightarrow> md_status m"
      have call: "loop env ?st' s1 = Some y" using body False m Inr by simp
      from IH[OF call]
      have q2: "quiet s1 (snd y)"
        and fin: "fst y = Inr () \<longrightarrow> (in_final_states ?st' \<and> snd y = s1)
                    \<or> (\<exists>ev. last_event (trace (snd y)) = Some ev \<and> justifies ev workflowMovedToFinalState)"
        by simp_all
      have q: "quiet s (snd y)" using q1 q2 by (rule quiet_trans)
      have "\<exists>ev. last_event (trace (snd y)) = Some ev \<and> justifies ev workflowMovedToFinalState"
        if ok: "fst y = Inr ()"
      proof -
        from fin ok consider
          (now) "in_final_states ?st'" "snd y = s1"
          | (later) "\<exists>ev. last_event (trace (snd y)) = Some ev \<and> justifies ev workflowMovedToFinalState"
          by blast
        then show ?thesis
        proof cases
          case now
          then obtain m' where meta: "meta = Some m'" and f: "in_final_states (md_status m')"
            using False by (cases meta) auto
          from metadata_final_poll[OF m[unfolded Inr meta]]
          obtain m0 where "trace s1 = trace s @ [Metadata (Inr (Some m0))]"
            and "md_status m0 = md_status m'" by blast
          then show ?thesis using now(2) f by (simp add: last_event_def)
        next
          case later
          then show ?thesis .
        qed
      qed
      with q show ?thesis by blast
    qed
  qed
qed

lemma wait_step:
  assumes "wait_if_required env s = Some (r, s')"
  shows "advances s s'" and "starts (trace s') = starts (trace s)"
    and "case r of Inl err \<Rightarrow> db_progress s' = db_progress s
               | Inr u \<Rightarrow> db_progress s' = insert workflowMovedToFinalState (db_progress s)"
proof -
  have "advances s s' \<and> starts (trace s') = starts (trace s)
        \<and> (case r of Inl err \<Rightarrow> db_progress s' = db_progress s
               | Inr u \<Rightarrow> db_progress s' = insert workflowMovedToFinalState (db_progress s))"
  proof (cases "progress_has_completed s workflowMovedToFinalState")
    case True
    obtain r1 s1 where m: "metadata env s = (r1, s1)" by (cases "metadata env s")
    have q1: "quiet s s1" using m by (rule metadata_quiet)
    have "s' = s1" and "case r of Inl err \<Rightarrow> True | Inr u \<Rightarrow> True"
      using assms True m by (cases r1; simp add: wait_if_required_def split: sum.splits)+
    then show ?thesis
      using q1 True
      by (auto simp: quiet_advances quiet_starts quiet_progress progress_has_completed_def
               split: sum.splits)
  next
    case False
    obtain r1 s1 where loop: "wait_loop env None s = Some (r1, s1)"
      using assms False by (cases "wait_loop env None s") (auto simp: wait_if_required_def)
    from wait_loop_polls[OF loop]
    have q1: "quiet s s1"
      and fin: "r1 = Inr () \<longrightarrow>
                  (\<exists>ev. last_event (trace s1) = Some ev \<and> justifies ev workflowMovedToFinalState)"
      by (simp_all add: in_final_states_def)
    show ?thesis
    proof (cases r1)
      case (Inl err)
      then have "r = Inl err" "s' = s1"
        using assms False loop by (simp_all add: wait_if_required_def)
      then show ?thesis using q1 by (simp add: quiet_advances quiet_starts quiet_progress)
    next
      case (Inr u)
      then have r: "r = Inr ()" and s': "s' = progress_mark_completed workflowMovedToFinalState s1"
        using assms False loop by (simp_all add: wait_if_required_def)
      from fin Inr obtain ev where "last_event (trace s1) = Some ev"
        "justifies ev workflowMovedToFinalState" by auto
      from mark_after[OF q1 this] have "advances s s'" by (simp add: s')
      then show ?thesis
        using q1 r by (simp add: s' mark_starts mark_progress quiet_starts quiet_progress)
    qed
  qed
  then show "advances s s'" and "starts (trace s') = starts (trace s)"
    and "case r of Inl err \<Rightarrow> db_progress s' = db_progress s
               | Inr u \<Rightarrow> db_progress s' = insert workflowMovedToFinalState (db_progress s)"
    by simp_all
qed


lemma resume_step:
  assumes "resume_if_possible g env s = Some (r, s')"
  shows "advances s s'" and "starts (trace s') = starts (trace s)"
    and "in_step_order (db_progress s) \<Longrightarrow> in_step_order (db_progress s')"
proof -
  have "advances s s' \<and> starts (trace s') = starts (trace s)
        \<and> (in_step_order (db_progress s) \<longrightarrow> in_step_order (db_progress s'))"
  proof (cases "progress_has_completed s submitWorkflow")
    case False
    then have "s' = s" using assms by (simp add: resume_if_possible_def)
    then show ?thesis by (simp add: advances_refl)
  next
    case True
    then have sub: "submitWorkflow \<in> db_progress s" by (simp add: progress_has_completed_def)
    obtain r1 s1 where w: "wait_if_required env s = Some (r1, s1)"
      using assms True by (cases "wait_if_required env s") (auto simp: resume_if_possible_def)
    note w1 = wait_step[OF w]
    show ?thesis
    proof (cases r1)
      case (Inl err)
      then have "s' = s1" using assms True w by (simp add: resume_if_possible_def)
      then show ?thesis using w1 Inl by simp
    next
      case r1: (Inr u1)
      then have p1: "db_progress s1 = insert workflowMovedToFinalState (db_progress s)"
        using w1(3) by simp
      obtain r2 s2 where m: "save_metadata_if_required env s1 = (r2, s2)"
        by (cases "save_metadata_if_required env s1")
      note m1 = save_metadata_step[OF m]
      have a2: "advances s s2" using w1(1) m1(1) by (rule advances_trans)
      have st2: "starts (trace s2) = starts (trace s)" using w1(2) m1(2) by simp
      show ?thesis
      proof (cases r2)
        case (Inl err)
        then have "s' = s2" using assms True w r1 m by (simp add: resume_if_possible_def)
        moreover have "db_progress s2 = db_progress s1" using m1(3) Inl by simp
        ultimately show ?thesis
          using a2 st2 p1 sub by (auto simp: in_step_order_def)
      next
        case r2: (Inr u2)
        then have p2: "db_progress s2 = insert savedMetadata (db_progress s1)" using m1(3) by simp
        have c: "copy_outputs_if_required g env s2 = (r, s')"
          using assms True w r1 m r2 by (simp add: resume_if_possible_def)
        note c1 = copy_outputs_step[OF c]
        have "advances s s'" using a2 c1(1) by (rule advances_trans)
        moreover have "starts (trace s') = starts (trace s)" using st2 c1(2) by simp
        moreover have "in_step_order (db_progress s) \<longrightarrow> in_step_order (db_progress s')"
          using c1(3) p1 p2 sub by (auto simp: in_step_order_def)
        ultimately show ?thesis by simp
      qed
    qed
  qed
  then show "advances s s'" and "starts (trace s') = starts (trace s)"
    and "in_step_order (db_progress s) \<Longrightarrow> in_step_order (db_progress s')"
    by simp_all
qed

lemma create_dir_quiet: "quiet s (create_dir_if_needed p s)"
  by (simp add: create_dir_if_needed_def quiet_def starts_def)

lemma create_output_structure_quiet: "quiet s (create_output_structure s)"
  by (simp add: create_output_structure_def create_dir_if_needed_def quiet_def starts_def Let_def)

lemma init_quiet:
  assumes "TaskManager_init registry outdir tid0 environment s = (r, s')"
  shows "quiet s s'"
proof -
  define s1 where "s1 = s\<lparr>tm_tid := tid0, tm_engine_tid := None, tm_path := outdir\<rparr>"
  define s2 where "s2 = create_output_structure s1"
  define s3 where "s3 = (if \<not> truthy (tm_tid s2)
                then (case get_engine_tid s2 of (t, s') \<Rightarrow> s'\<lparr>tm_tid := t\<rparr>) else s2)"
  have "quiet s s1" by (simp add: s1_def quiet_def starts_def)
  moreover have "quiet s1 s2" unfolding s2_def by (rule create_output_structure_quiet)
  moreover have "quiet s2 s3"
    by (auto simp: s3_def quiet_def starts_def split: prod.splits dest!: get_engine_tid_eq)
  ultimately have "quiet s s3" by (blast intro: quiet_trans)
  moreover have "s' = s3"
    using assms unfolding TaskManager_init_def s1_def[symmetric] Let_def s2_def[symmetric] s3_def[symmetric]
    by (auto split: option.splits if_splits)
  ultimately show ?thesis by simp
qed

lemma add_meta_infos_quiet: "quiet s (add_meta_infos kvs s)"
proof -
  have "db_progress (add_meta_infos kvs s) = db_progress s \<and> trace (add_meta_infos kvs s) = trace s"
    unfolding add_meta_infos_def
    by (induction kvs arbitrary: s) (auto simp: add_meta_info_def)
  then show ?thesis by (simp add: quiet_same)
qed

lemma from_path_quiet:
  assumes "from_path registry path0 s = (r, s')"
  shows "quiet s s'"
  using assms
  by (auto simp: from_path_def Let_def quiet_refl split: option.splits prod.splits sum.splits
           dest: init_quiet)

lemma from_janis_step:
  assumes "from_janis j g registry tid0 outdir w env hints v s = Some (r, s')"
  shows "advances s s'"
    and "in_step_order (db_progress s) \<Longrightarrow> in_step_order (db_progress s')"
    and "progress_has_completed s submitWorkflow \<Longrightarrow> starts (trace s') = starts (trace s)"
    and "\<not> progress_has_completed s submitWorkflow \<Longrightarrow> r = Inr ()
         \<Longrightarrow> starts (trace s') = Suc (starts (trace s)) \<and> progress_has_completed s' submitWorkflow"
proof -
  obtain r1 s1 where i: "TaskManager_init registry outdir (Some (VStr tid0)) (Some env) s = (r1, s1)"
    by (cases "TaskManager_init registry outdir (Some (VStr tid0)) (Some env) s")
  have r1: "r1 = Inr ()" using i by (auto simp: TaskManager_init_def Let_def)
  define s2 where "s2 = add_meta_infos
                      [(InfoKeys_taskId, VStr tid0),
                       (InfoKeys_status, VStatus PROCESSING),
                       (InfoKeys_validating, VBool (v \<noteq> None)),
                       (InfoKeys_engineId, VStr (eng_id (engine env))),
                       (InfoKeys_environment, VStr (env_id env))] s1"
  have q2: "quiet s s2"
    using init_quiet[OF i] add_meta_infos_quiet unfolding s2_def by (rule quiet_trans)
  note a2 = quiet_advances[OF q2] and st2 = quiet_starts[OF q2] and p2 = quiet_progress[OF q2]
  obtain r3 s3 where p: "prepare_and_output_workflow_to_evaluate_if_required j w v hints s2 = (r3, s3)"
    by (cases "prepare_and_output_workflow_to_evaluate_if_required j w v hints s2")
  note p3 = prepare_step[OF p]
  have a3: "advances s s3" using a2 p3(1) by (rule advances_trans)
  have st3: "starts (trace s3) = starts (trace s)" using st2 p3(2) by simp
  have "advances s s'
        \<and> (in_step_order (db_progress s) \<longrightarrow> in_step_order (db_progress s'))
        \<and> (progress_has_completed s submitWorkflow \<longrightarrow> starts (trace s') = starts (trace s))
        \<and> (\<not> progress_has_completed s submitWorkflow \<longrightarrow> r = Inr ()
             \<longrightarrow> starts (trace s') = Suc (starts (trace s)) \<and> progress_has_completed s' submitWorkflow)"
  proof (cases r3)
    case (Inl err)
    then have "r = Inl err" "s' = s3"
      using assms i r1 p by (simp_all add: from_janis_def s2_def Let_def)
    moreover have "db_progress s3 = db_progress s" using p3(3) Inl p2 by simp
    ultimately show ?thesis using a3 st3 by simp
  next
    case r3: (Inr wf_evaluate)
    then have p3': "db_progress s3 = insert saveWorkflow (db_progress s)" using p3(3) p2 by simp
    obtain r4 s4 where sb: "submit_workflow_if_required j env wf_evaluate s3 = (r4, s4)"
      by (cases "submit_workflow_if_required j env wf_evaluate s3")
    note sb4 = submit_step[OF sb]
    have a4: "advances s s4" using a3 sb4(1) by (rule advances_trans)
    have c3: "progress_has_completed s3 submitWorkflow = progress_has_completed s submitWorkflow"
      using p3' by (simp add: progress_has_completed_def)
    show ?thesis
    proof (cases r4)
      case (Inl err)
      then have res: "r = Inl err" "s' = s4"
        using assms i r1 p r3 sb by (simp_all add: from_janis_def s2_def Let_def)
      have p4: "db_progress s4 = db_progress s3" using sb4(2) Inl by simp
      have "progress_has_completed s submitWorkflow \<longrightarrow> starts (trace s4) = starts (trace s)"
        using sb c3 st3 by (auto simp: submit_skipped)
      then show ?thesis using res a4 p4 p3' by (auto simp: in_step_order_def)
    next
      case r4: (Inr u)
      then have p4: "db_progress s4 = insert submitWorkflow (db_progress s3)" using sb4(2) by simp
      have run: "resume_if_possible g env s4 = Some (r, s')"
        using assms i r1 p r3 sb r4 by (simp add: from_janis_def s2_def Let_def)
      note rs = resume_step[OF run]
      have "advances s s'" using a4 rs(1) by (rule advances_trans)
      moreover have "in_step_order (db_progress s) \<longrightarrow> in_step_order (db_progress s')"
      proof
        assume "in_step_order (db_progress s)"
        then have "in_step_order (db_progress s4)"
          using p4 p3' by (auto simp: in_step_order_def)
        then show "in_step_order (db_progress s')" by (rule rs(3))
      qed
      moreover have "progress_has_completed s submitWorkflow \<longrightarrow> starts (trace s') = starts (trace s)"
        using sb c3 st3 rs(2) by (auto simp: submit_skipped)
      moreover have "\<not> progress_has_completed s submitWorkflow
                     \<longrightarrow> starts (trace s') = Suc (starts (trace s)) \<and> progress_has_completed s' submitWorkflow"
      proof
        assume n: "\<not> progress_has_completed s submitWorkflow"
        then have n3: "\<not> progress_has_completed s3 submitWorkflow" using c3 by simp
        from submit_started(1)[OF n3 sb[unfolded r4, simplified]]
        obtain a b c t where
          "trace s4 = trace s3 @ [StartFromPaths a b c (Inr t), MarkCompleted submitWorkflow]"
          by blast
        then have "starts (trace s4) = Suc (starts (trace s3))" by (simp add: starts_def)
        then have "starts (trace s') = Suc (starts (trace s))" using rs(2) st3 by simp
        moreover have "submitWorkflow \<in> db_progress s'"
          using advances_mono[OF rs(1)] p4 by auto
        ultimately show "starts (trace s') = Suc (starts (trace s)) \<and> progress_has_completed s' submitWorkflow"
          by (simp add: progress_has_completed_def)
      qed
      ultimately show ?thesis by simp
    qed
  qed
  then show "advances s s'"
    and "in_step_order (db_progress s) \<Longrightarrow> in_step_order (db_progress s')"
    and "progress_has_completed s submitWorkflow \<Longrightarrow> starts (trace s') = starts (trace s)"
    and "\<not> progress_has_completed s submitWorkflow \<Longrightarrow> r = Inr ()
         \<Longrightarrow> starts (trace s') = Suc (starts (trace s)) \<and> progress_has_completed s' submitWorkflow"
    by simp_all
qed

section \<open>Resuming does not submit again\<close>

lemma option_pair_caseD:
  "(case x of None \<Rightarrow> False | Some (r, s) \<Rightarrow> P r s) \<Longrightarrow> \<exists>r s. x = Some (r, s) \<and> P r s"
  by (cases x) auto

lemma resume_returns_when_final:
  assumes "progress_has_completed s workflowMovedToFinalState"
  shows "resume_if_possible g env s \<noteq> None"
  using assms
  by (auto simp: resume_if_possible_def wait_if_required_def split: prod.splits sum.splits)

lemma from_janis_returns_when_final:
  assumes "progress_has_completed s workflowMovedToFinalState"
  shows "from_janis j g registry tid0 outdir w env hints v s \<noteq> None"
proof -
  obtain r1 s1 where i: "TaskManager_init registry outdir (Some (VStr tid0)) (Some env) s = (r1, s1)"
    by (cases "TaskManager_init registry outdir (Some (VStr tid0)) (Some env) s")
  define s2 where "s2 = add_meta_infos
                      [(InfoKeys_taskId, VStr tid0),
                       (InfoKeys_status, VStatus PROCESSING),
                       (InfoKeys_validating, VBool (v \<noteq> None)),
                       (InfoKeys_engineId, VStr (eng_id (engine env))),
                       (InfoKeys_environment, VStr (env_id env))] s1"
  have q2: "quiet s s2"
    using init_quiet[OF i] add_meta_infos_quiet unfolding s2_def by (rule quiet_trans)
  obtain r3 s3 where p: "prepare_and_output_workflow_to_evaluate_if_required j w v hints s2 = (r3, s3)"
    by (cases "prepare_and_output_workflow_to_evaluate_if_required j w v hints s2")
  show ?thesis
  proof (cases r1)
    case (Inl err)
    then show ?thesis using i by (simp add: from_janis_def)
  next
    case r1: (Inr u1)
    show ?thesis
    proof (cases r3)
      case (Inl err)
      then show ?thesis using i r1 p by (simp add: from_janis_def s2_def Let_def)
    next
      case r3: (Inr wf_evaluate)
      obtain r4 s4 where sb: "submit_workflow_if_required j env wf_evaluate s3 = (r4, s4)"
        by (cases "submit_workflow_if_required j env wf_evaluate s3")
      show ?thesis
      proof (cases r4)
        case (Inl err)
        then show ?thesis using i r1 p r3 sb by (simp add: from_janis_def s2_def Let_def)
      next
        case r4: (Inr u4)
        have "db_progress s \<subseteq> db_progress s4"
          using quiet_progress[OF q2] advances_mono[OF prepare_step(1)[OF p]]
            advances_mono[OF submit_step(1)[OF sb]] by simp
        then have "progress_has_completed s4 workflowMovedToFinalState"
          using assms by (auto simp: progress_has_completed_def)
        then have "resume_if_possible g env s4 \<noteq> None" by (rule resume_returns_when_final)
        then show ?thesis using i r1 p r3 sb r4 by (simp add: from_janis_def s2_def Let_def)
      qed
    qed
  qed
qed

lemma from_janis_submitted:
  assumes "from_janis j g registry tid0 outdir w env hints v s = Some (r, s')"
  shows "r = Inr () \<Longrightarrow> progress_has_completed s' submitWorkflow"
    and "\<not> progress_has_completed s submitWorkflow \<Longrightarrow> progress_has_completed s' submitWorkflow
         \<Longrightarrow> starts (trace s') = Suc (starts (trace s))"
proof -
  obtain r1 s1 where i: "TaskManager_init registry outdir (Some (VStr tid0)) (Some env) s = (r1, s1)"
    by (cases "TaskManager_init registry outdir (Some (VStr tid0)) (Some env) s")
  have r1: "r1 = Inr ()" using i by (auto simp: TaskManager_init_def Let_def)
  define s2 where "s2 = add_meta_infos
                      [(InfoKeys_taskId, VStr tid0),
                       (InfoKeys_status, VStatus PROCESSING),
                       (InfoKeys_validating, VBool (v \<noteq> None)),
                       (InfoKeys_engineId, VStr (eng_id (engine env))),
                       (InfoKeys_environment, VStr (env_id env))] s1"
  have q2: "quiet s s2"
    using init_quiet[OF i] add_meta_infos_quiet unfolding s2_def by (rule quiet_trans)
  note p2 = quiet_progress[OF q2] and st2 = quiet_starts[OF q2]
  obtain r3 s3 where p: "prepare_and_output_workflow_to_evaluate_if_required j w v hints s2 = (r3, s3)"
    by (cases "prepare_and_output_workflow_to_evaluate_if_required j w v hints s2")
  note p3 = prepare_step[OF p]
  have st3: "starts (trace s3) = starts (trace s)" using st2 p3(2) by simp
  have "(r = Inr () \<longrightarrow> progress_has_completed s' submitWorkflow)
        \<and> (\<not> progress_has_completed s submitWorkflow \<longrightarrow> progress_has_completed s' submitWorkflow
             \<longrightarrow> starts (trace s') = Suc (starts (trace s)))"
  proof (cases r3)
    case (Inl err)
    then have "r = Inl err" "s' = s3"
      using assms i r1 p by (simp_all add: from_janis_def s2_def Let_def)
    moreover have "db_progress s3 = db_progress s" using p3(3) Inl p2 by simp
    ultimately show ?thesis by (simp add: progress_has_completed_def)
  next
    case r3: (Inr wf_evaluate)
    then have p3': "db_progress s3 = insert saveWorkflow (db_progress s)" using p3(3) p2 by simp
    obtain r4 s4 where sb: "submit_workflow_if_required j env wf_evaluate s3 = (r4, s4)"
      by (cases "submit_workflow_if_required j env wf_evaluate s3")
    note sb4 = submit_step[OF sb]
    show ?thesis
    proof (cases r4)
      case (Inl err)
      then have "r = Inl err" "s' = s4"
        using assms i r1 p r3 sb by (simp_all add: from_janis_def s2_def Let_def)
      moreover have "db_progress s4 = db_progress s3" using sb4(2) Inl by simp
      ultimately show ?thesis using p3' by (simp add: progress_has_completed_def)
    next
      case r4: (Inr u)
      then have p4: "db_progress s4 = insert submitWorkflow (db_progress s3)" using sb4(2) by simp
      have run: "resume_if_possible g env s4 = Some (r, s')"
        using assms i r1 p r3 sb r4 by (simp add: from_janis_def s2_def Let_def)
      note rs = resume_step[OF run]
      have "submitWorkflow \<in> db_progress s'"
        using advances_mono[OF rs(1)] p4 by auto
      then have "progress_has_completed s' submitWorkflow" by (simp add: progress_has_completed_def)
      moreover have "\<not> progress_has_completed s submitWorkflow
                     \<longrightarrow> starts (trace s') = Suc (starts (trace s))"
      proof
        assume "\<not> progress_has_completed s submitWorkflow"
        then have n3: "\<not> progress_has_completed s3 submitWorkflow"
          using p3' by (simp add: progress_has_completed_def)
        from submit_started(1)[OF n3 sb[unfolded r4, simplified]]
        obtain a b c t where
          "trace s4 = trace s3 @ [StartFromPaths a b c (Inr t), MarkCompleted submitWorkflow]"
          by blast
        then have "starts (trace s4) = Suc (starts (trace s3))" by (simp add: starts_def)
        then show "starts (trace s') = Suc (starts (trace s))" using rs(2) st3 by simp
      qed
      ultimately show ?thesis by simp
    qed
  qed
  then show "r = Inr () \<Longrightarrow> progress_has_completed s' submitWorkflow"
    and "\<not> progress_has_completed s submitWorkflow \<Longrightarrow> progress_has_completed s' submitWorkflow
         \<Longrightarrow> starts (trace s') = Suc (starts (trace s))"
    by simp_all
qed

text \<open>
  C1: run \<open>from_janis\<close> (prepare, submit, await, save the metadata, copy the outputs) on
  an output root, and run it again on the state that the first run left, the engine
  having moved on in the meantime. If the first run returned, or at least got past its
  submit step (it may have raised later, as it does at the metadata step for an engine
  that is not Cromwell), the second run does not call the engine's start operation; so
  over the two runs start was called exactly once when the workflow had not been
  submitted before, and not at all when it had. This rests on
  \<open>submit_workflow_if_required\<close>: with the step marked it returns the state unchanged,
  and when it returns with the step unmarked before, it has called start once and
  marked the step directly after start returned.
\<close>

theorem resume_starts_engine_once:
  assumes "from_janis j g registry tid0 outdir w env hints v s0 = Some (r1, s1)"
    and "r1 = Inr () \<or> progress_has_completed s1 submitWorkflow"
    and "from_janis j g registry tid0 outdir w env hints v (s1\<lparr>engine_state := e\<rparr>) = Some (r2, s2)"
  shows "progress_has_completed s1 submitWorkflow
       \<and> starts (trace s2) = starts (trace s1)
       \<and> (\<not> progress_has_completed s0 submitWorkflow \<longrightarrow> starts (trace s2) = Suc (starts (trace s0)))
       \<and> (progress_has_completed s0 submitWorkflow \<longrightarrow> starts (trace s2) = starts (trace s0))
       \<and> (\<forall>wkf s. progress_has_completed s submitWorkflow
             \<longrightarrow> submit_workflow_if_required j env wkf s = (Inr (), s))
       \<and> (\<forall>wkf s s'. \<not> progress_has_completed s submitWorkflow
             \<longrightarrow> submit_workflow_if_required j env wkf s = (Inr (), s')
             \<longrightarrow> (\<exists>a b c t. trace s' = trace s @ [StartFromPaths a b c (Inr t), MarkCompleted submitWorkflow])
                 \<and> progress_has_completed s' submitWorkflow)"
proof -
  have marked: "progress_has_completed s1 submitWorkflow"
    using assms(2) from_janis_submitted(1)[OF assms(1)] by blast
  then have "progress_has_completed (s1\<lparr>engine_state := e\<rparr>) submitWorkflow"
    by (simp add: progress_has_completed_def)
  from from_janis_step(3)[OF assms(3) this]
  have second: "starts (trace s2) = starts (trace s1)" by simp
  have first_run: "starts (trace s2) = Suc (starts (trace s0))"
    if "\<not> progress_has_completed s0 submitWorkflow"
    using from_janis_submitted(2)[OF assms(1) that marked] second by simp
  have resumed: "starts (trace s2) = starts (trace s0)" if "progress_has_completed s0 submitWorkflow"
    using from_janis_step(3)[OF assms(1) that] second by simp
  have skipped: "\<forall>wkf s. progress_has_completed s submitWorkflow
           \<longrightarrow> submit_workflow_if_required j env wkf s = (Inr (), s)"
    by (simp add: submit_skipped)
  have started: "\<forall>wkf s s'. \<not> progress_has_completed s submitWorkflow
           \<longrightarrow> submit_workflow_if_required j env wkf s = (Inr (), s')
           \<longrightarrow> (\<exists>a b c t. trace s' = trace s @ [StartFromPaths a b c (Inr t), MarkCompleted submitWorkflow])
               \<and> progress_has_completed s' submitWorkflow"
    using submit_started by (fastforce simp: progress_has_completed_def)
  from marked second first_run resumed skipped started show ?thesis by blast
qed

text \<open>
  Two runs of the example workflow on the Cromwell-like engine: the second run finds
  all steps marked, and the trace holds one call of start.
\<close>

theorem resume_starts_engine_once_witness:
  "\<exists>s1 r2 s2.
     from_janis example_janis example_get_extension (example_registry [(''x'', PyStr ''/tmp/a.vcf'')])
       ''t1'' ''/out/t1'' ''wf'' (example_environment True [(''x'', PyStr ''/tmp/a.vcf'')]) [] None
       (example_state {} False) = Some (Inr (), s1)
     \<and> from_janis example_janis example_get_extension (example_registry [(''x'', PyStr ''/tmp/a.vcf'')])
       ''t1'' ''/out/t1'' ''wf'' (example_environment True [(''x'', PyStr ''/tmp/a.vcf'')]) [] None
       (s1\<lparr>engine_state := 7\<rparr>) = Some (r2, s2)
     \<and> starts (trace s2) = 1"
proof -
  let ?run = "from_janis example_janis example_get_extension (example_registry [(''x'', PyStr ''/tmp/a.vcf'')])
       ''t1'' ''/out/t1'' ''wf'' (example_environment True [(''x'', PyStr ''/tmp/a.vcf'')]) [] None"
  let ?s0 = "example_state {} False"
  have "case ?run ?s0 of None \<Rightarrow> False
        | Some (r, s) \<Rightarrow> r = Inr () \<and> progress_has_completed s workflowMovedToFinalState"
    by code_simp
  from option_pair_caseD[OF this]
  obtain s1 where run1: "?run ?s0 = Some (Inr (), s1)"
    and fin: "progress_has_completed s1 workflowMovedToFinalState"
    by blast
  from fin have "progress_has_completed (s1\<lparr>engine_state := 7\<rparr>) workflowMovedToFinalState"
    by (simp add: progress_has_completed_def)
  then have "?run (s1\<lparr>engine_state := 7\<rparr>) \<noteq> None" by (rule from_janis_returns_when_final)
  then obtain r2 s2 where run2: "?run (s1\<lparr>engine_state := 7\<rparr>) = Some (r2, s2)"
    by fastforce
  have fresh: "\<not> progress_has_completed ?s0 submitWorkflow"
    by (simp add: progress_has_completed_def example_state_def)
  have "starts (trace ?s0) = 0" by (simp add: example_state_def starts_def)
  from resume_starts_engine_once[OF run1 _ run2] have "starts (trace s2) = Suc (starts (trace ?s0))"
    using fresh by simp
  then have "starts (trace s2) = 1" using \<open>starts (trace ?s0) = 0\<close> by simp
  with run1 run2 show ?thesis by blast
qed

section \<open>The order of the steps\<close>

lemma advances_keeps_marks:
  assumes "advances s s'" and "db_progress s = set (marks (trace s))"
    and "marks_justified None (trace s)"
  shows "db_progress s' = set (marks (trace s')) \<and> marks_justified None (trace s')"
proof -
  from assms(1) obtain evs where
    tr: "trace s' = trace s @ evs" and db: "db_progress s' = db_progress s \<union> set (marks evs)"
    and mj: "marks_justified (last_event (trace s)) evs"
    by (auto simp: advances_def)
  have "marks_justified (last_event []) (trace s @ evs)"
    unfolding marks_justified_append using assms(3) mj by (simp add: last_event_def)
  then show ?thesis using tr db assms(2) by (simp add: marks_append last_event_def)
qed

text \<open>
  C2: in every state that runs of the entry points reach from an empty progress record,
  a marked \<open>copiedOutputs\<close> implies that \<open>submitWorkflow\<close> and
  \<open>workflowMovedToFinalState\<close> are marked; more generally the marked steps are closed
  under the order saveWorkflow, submitWorkflow, workflowMovedToFinalState,
  savedMetadata, copiedOutputs. The marked steps are the ones marked on the trace, and
  on the trace every mark comes directly after the successful end of the side effect
  of its step.
\<close>

theorem reachable_records_in_step_order:
  assumes "reachable j g registry s"
  shows "(copiedOutputs \<in> db_progress s
            \<longrightarrow> submitWorkflow \<in> db_progress s \<and> workflowMovedToFinalState \<in> db_progress s)
         \<and> in_step_order (db_progress s)
         \<and> db_progress s = set (marks (trace s))
         \<and> marks_justified None (trace s)"
proof -
  have "in_step_order (db_progress s) \<and> db_progress s = set (marks (trace s))
        \<and> marks_justified None (trace s)"
    using assms
  proof (induction rule: reachable.induct)
    case (empty_record s)
    then show ?case by (simp add: in_step_order_def)
  next
    case (engine_moves s e)
    then show ?case by auto
  next
    case (run_from_janis s tid0 outdir workflow environment hints validation r s')
    from from_janis_step(1,2)[OF run_from_janis(2)] run_from_janis(3)
    show ?case using advances_keeps_marks by blast
  next
    case (run_from_path s path0 r s')
    from from_path_quiet[OF run_from_path(2)]
    have "advances s s'" and "db_progress s' = db_progress s"
      by (simp_all add: quiet_advances quiet_progress)
    with run_from_path(3) show ?case using advances_keeps_marks by fastforce
  next
    case (run_resume s path0 env s1 r s')
    from from_path_quiet[OF run_resume(2)]
    have a1: "advances s s1" and p1: "db_progress s1 = db_progress s"
      by (simp_all add: quiet_advances quiet_progress)
    note rs = resume_step[OF run_resume(3)]
    have "advances s s'" using a1 rs(1) by (rule advances_trans)
    moreover from run_resume(4) have "in_step_order (db_progress s)" by blast
    then have "in_step_order (db_progress s')" using rs(3) p1 by simp
    ultimately show ?case using run_resume(4) advances_keeps_marks by blast
  qed
  then show ?thesis by (auto simp: in_step_order_def)
qed

text \<open>
  The state after a full run of the example workflow is reachable; all five steps are
  marked in it.
\<close>

theorem reachable_records_in_step_order_witness:
  "\<exists>s. from_janis example_janis example_get_extension (example_registry [(''x'', PyStr ''/tmp/a.vcf'')])
         ''t1'' ''/out/t1'' ''wf'' (example_environment True [(''x'', PyStr ''/tmp/a.vcf'')]) [] None
         (example_state {} False) = Some (Inr (), s)
       \<and> reachable example_janis example_get_extension (example_registry [(''x'', PyStr ''/tmp/a.vcf'')]) s
       \<and> db_progress s
           = {saveWorkflow, submitWorkflow, workflowMovedToFinalState, savedMetadata, copiedOutputs}
       \<and> in_step_order (db_progress s)
       \<and> marks_justified None (trace s)"
proof -
  let ?run = "from_janis example_janis example_get_extension (example_registry [(''x'', PyStr ''/tmp/a.vcf'')])
       ''t1'' ''/out/t1'' ''wf'' (example_environment True [(''x'', PyStr ''/tmp/a.vcf'')]) [] None"
  let ?s0 = "example_state {} False"
  have "case ?run ?s0 of None \<Rightarrow> False
        | Some (r, s) \<Rightarrow> r = Inr ()
            \<and> db_progress s
                = {saveWorkflow, submitWorkflow, workflowMovedToFinalState, savedMetadata, copiedOutputs}"
    by code_simp
  from option_pair_caseD[OF this]
  obtain s1 where run1: "?run ?s0 = Some (Inr (), s1)"
    and all: "db_progress s1
          = {saveWorkflow, submitWorkflow, workflowMovedToFinalState, savedMetadata, copiedOutputs}"
    by blast
  have "reachable example_janis example_get_extension (example_registry [(''x'', PyStr ''/tmp/a.vcf'')]) ?s0"
    by (rule reachable.empty_record) (simp_all add: example_state_def)
  then have r1: "reachable example_janis example_get_extension
                   (example_registry [(''x'', PyStr ''/tmp/a.vcf'')]) s1"
    using run1 by (rule reachable.run_from_janis)
  from reachable_records_in_step_order[OF r1]
  have "in_step_order (db_progress s1)" and "marks_justified None (trace s1)" by blast+
  with run1 r1 all show ?thesis by blast
qed

section \<open>The status that the log watcher reports\<close>

text \<open>
  The loop over standard error keeps the flag once it is set, and a line with a keyword
  sets it: a match does not end the loop.
\<close>

lemma scan_keywords_keeps: "has_error \<Longrightarrow> scan_keywords line has_error"
  by (simp add: scan_keywords_def error_keywords_def)

lemma scan_keywords_iff:
  "scan_keywords line has_error
     \<longleftrightarrow> has_error \<or> (\<exists>keyword \<in> set error_keywords. contains keyword (lower line))"
  by (auto simp: scan_keywords_def error_keywords_def)

text \<open>
  The reads of standard error that the loop gets to: those before the first read that
  ends it, a line that is empty after \<open>rstrip\<close> while the process has exited.
\<close>

lemma stderr_loop_has_error:
  assumes "stderr_loop code rs h lg = (LoopBreak, h', lg')"
  shows "h' \<longleftrightarrow> h \<or> (\<exists>line \<in> set (lines_read rs).
                          \<exists>keyword \<in> set error_keywords. contains keyword (lower line))"
  using assms
proof (induction code rs h lg rule: stderr_loop.induct)
  case (1 code has_error lg)
  then show ?case by (simp add: lines_read_def)
next
  case (2 code r rs has_error lg)
  show ?case
  proof (cases "rd_bytes r")
    case None
    with "2.prems" show ?thesis by (simp split: if_splits)
  next
    case (Some c)
    from "2.prems" have nt: "\<not> rd_terminate r" by (simp split: if_splits)
    show ?thesis
    proof (cases "rstrip c = []")
      case True
      note empty = this
      show ?thesis
      proof (cases "rd_exited r")
        case True
        with "2.prems" nt Some empty show ?thesis
          by (simp add: lines_read_def ends_loop_def line_of_def)
      next
        case False
        with "2.prems" nt Some empty
        have "stderr_loop code rs has_error lg = (LoopBreak, h', lg')" by simp
        from "2.IH"(1)[OF nt Some refl empty False this]
        show ?thesis using False Some empty
          by (simp add: lines_read_def ends_loop_def line_of_def lower_def error_keywords_def)
      qed
    next
      case False
      with "2.prems" nt Some
      have "stderr_loop code rs (scan_keywords (rstrip c) has_error) lg = (LoopBreak, h', lg')"
        by simp
      from "2.IH"(2)[OF nt Some refl False this]
      show ?thesis using False Some
        by (auto simp: lines_read_def ends_loop_def line_of_def scan_keywords_iff)
    qed
  qed
qed

text \<open>
  C3: a process that has exited wrote an empty line to standard error and then the line
  \<open>error: boom\<close>, and nothing to standard output. The loop over standard error leaves at
  the empty line, \<open>error: boom\<close> is never read, and the exit callback receives
  \<open>COMPLETED\<close> although a line of standard error contains the keyword \<open>error\<close>. Without
  the empty line the callback receives \<open>FAILED\<close>.
\<close>

theorem blank_stderr_line_hides_error:
  "fst (ShellLogger_run (\<lambda>line. None) (\<lambda>lg. lg) True
          \<lparr>stdout = [],
           stderr = [example_read newline 0, example_read (''error: boom'' @ newline) 0],
           exit_code = 1\<rparr>
          example_logger)
     = ExitCalled COMPLETED
   \<and> contains ''error'' (lower (rstrip (''error: boom'' @ newline)))
   \<and> fst (ShellLogger_run (\<lambda>line. None) (\<lambda>lg. lg) True
          \<lparr>stdout = [],
           stderr = [example_read (''error: boom'' @ newline) 0],
           exit_code = 1\<rparr>
          example_logger)
     = ExitCalled FAILED"
  by code_simp

section \<open>What the log file holds when the exit callback is called\<close>

lemma lines_read_Cons:
  "lines_read (r # rs) = (if ends_loop r then [] else line_of r # lines_read rs)"
  by (simp add: lines_read_def)

lemma stdout_loop_log:
  assumes "stdout_loop json_loads code rs lg = (LoopBreak, lg')" and "logfp lg = OpenFile"
  shows "durable lg' @ buffered lg'
           = durable lg @ buffered lg @ map (\<lambda>l. l @ newline) (lines_read rs)
         \<and> logfp lg' = OpenFile"
  using assms
proof (induction rs arbitrary: lg)
  case Nil
  then show ?case by (auto simp: lines_read_def)
next
  case (Cons r rs)
  from Cons.prems(1) have nt: "\<not> rd_terminate r" by (simp split: if_splits)
  from Cons.prems(1) nt obtain c where c: "rd_bytes r = Some c"
    by (cases "rd_bytes r") simp_all
  define lg1 where
    "lg1 = (case json_loads (rstrip c) of Some v \<Rightarrow> lg\<lparr>outputs := Parsed v\<rparr> | None \<Rightarrow> lg)"
  have keep: "durable lg1 = durable lg" "buffered lg1 = buffered lg" "logfp lg1 = OpenFile"
    using Cons.prems(2) by (simp_all add: lg1_def split: option.splits)
  show ?case
  proof (cases "ends_loop r")
    case True
    with Cons.prems(1) nt c have "lg' = lg1\<lparr>rc := Some code\<rparr>"
      by (simp add: ends_loop_def line_of_def lg1_def Let_def)
    with keep True show ?thesis by (simp add: lines_read_Cons)
  next
    case False
    define lg2 where
      "lg2 = (let lg0 = lg1\<lparr>buffered := buffered lg1 @ [rstrip c @ newline]\<rparr>
              in if rd_now r - last_write lg1 > 5000
                 then flush_fsync (lg0\<lparr>last_write := rd_now r\<rparr>) else lg0)"
    from False c have ne: "\<not> (rstrip c = [] \<and> rd_exited r)"
      by (simp add: ends_loop_def line_of_def)
    have rest: "stdout_loop json_loads code rs lg2 = (LoopBreak, lg')"
      using Cons.prems(1) nt c ne keep(3)
      by (simp add: lg1_def[symmetric] lg2_def Let_def split: if_splits)
    have l2: "durable lg2 @ buffered lg2 = durable lg @ buffered lg @ [rstrip c @ newline]"
      and o2: "logfp lg2 = OpenFile"
      using keep by (simp_all add: lg2_def Let_def flush_fsync_def)
    from Cons.IH[OF rest o2] l2 False c show ?thesis
      by (simp add: lines_read_Cons line_of_def)
  qed
qed

lemma stderr_loop_log:
  "stderr_loop code rs h lg = (ex, h', lg')
   \<Longrightarrow> durable lg' = durable lg \<and> buffered lg' = buffered lg \<and> logfp lg' = logfp lg"
proof (induction code rs h lg rule: stderr_loop.induct)
  case (1 code has_error lg)
  then show ?case by auto
next
  case (2 code r rs has_error lg)
  then show ?case
    by (auto simp: Let_def split: if_splits option.splits)
qed

text \<open>
  C6: the watcher has an open log file and the run ends with the exit callback called,
  with either status. Then, at the call, the durable part of the log file is what it
  was before, followed by what was buffered before, followed by every line read from
  standard output before the loop ended, each with its line end, the last line
  included whenever it was read; and nothing is left in the buffer.
\<close>

theorem log_is_durable_at_exit:
  assumes "logfp lg0 = OpenFile"
    and "ShellLogger_run json_loads ProcessLogger_terminate True p lg0 = (ExitCalled st, lg)"
  shows "durable lg = durable lg0 @ buffered lg0 @ map (\<lambda>l. l @ newline) (lines_read (stdout p))
         \<and> buffered lg = []"
proof -
  obtain x1 lg1 where so: "stdout_loop json_loads (exit_code p) (stdout p) (lg0\<lparr>outputs := EmptyDict\<rparr>) = (x1, lg1)"
    by (cases "stdout_loop json_loads (exit_code p) (stdout p) (lg0\<lparr>outputs := EmptyDict\<rparr>)")
  with assms(2) have x1: "x1 = LoopBreak"
    by (cases x1) (simp_all add: ShellLogger_run_def)
  obtain x2 h lg2 where se: "stderr_loop (exit_code p) (stderr p) False lg1 = (x2, h, lg2)"
    by (cases "stderr_loop (exit_code p) (stderr p) False lg1")
  with assms(2) so x1 have x2: "x2 = LoopBreak"
    by (cases x2) (simp_all add: ShellLogger_run_def)
  from stdout_loop_log[OF so[unfolded x1]] assms(1)
  have l1: "durable lg1 @ buffered lg1
              = durable lg0 @ buffered lg0 @ map (\<lambda>l. l @ newline) (lines_read (stdout p))"
    and o1: "logfp lg1 = OpenFile" by simp_all
  from stderr_loop_log[OF se] l1 o1
  have l2: "durable lg2 @ buffered lg2
              = durable lg0 @ buffered lg0 @ map (\<lambda>l. l @ newline) (lines_read (stdout p))"
    and o2: "logfp lg2 = OpenFile" by simp_all
  define lg3 where "lg3 = (if h then flush_fsync (lg2\<lparr>rc := Some (exit_code p)\<rparr>) else lg2)"
  have l3: "durable lg3 @ buffered lg3 = durable lg2 @ buffered lg2" and o3: "logfp lg3 = OpenFile"
    using o2 by (simp_all add: lg3_def flush_fsync_def)
  from assms(2) so x1 se x2 o2 have "lg = ProcessLogger_terminate lg3"
    by (simp add: ShellLogger_run_def lg3_def Let_def split: if_splits)
  then have "durable lg = durable lg3 @ buffered lg3" and "buffered lg = []"
    using o3 by (simp_all add: ProcessLogger_terminate_def Let_def flush_fsync_def)
  with l3 l2 show ?thesis by simp
qed

text \<open>
  Two lines read one and two seconds after the last flush, then the end of the stream:
  neither write is flushed by the loop, and both lines are durable when the callback is
  called.
\<close>

theorem log_is_durable_at_exit_witness:
  "\<exists>lg. ShellLogger_run (\<lambda>line. None) ProcessLogger_terminate True
          \<lparr>stdout = [example_read (''hello'' @ newline) 1000, example_read (''world'' @ newline) 2000],
           stderr = [], exit_code = 0\<rparr> example_logger
        = (ExitCalled COMPLETED, lg)
      \<and> durable lg = [''hello'' @ newline, ''world'' @ newline] \<and> buffered lg = []"
proof -
  let ?p = "\<lparr>stdout = [example_read (''hello'' @ newline) 1000, example_read (''world'' @ newline) 2000],
           stderr = [], exit_code = 0\<rparr>"
  let ?run = "ShellLogger_run (\<lambda>line. None) ProcessLogger_terminate True ?p example_logger"
  have "fst ?run = ExitCalled COMPLETED" by code_simp
  then have run: "?run = (ExitCalled COMPLETED, snd ?run)" by (simp add: prod_eq_iff)
  have op: "logfp example_logger = OpenFile" by (simp add: example_logger_def)
  have ls: "lines_read (stdout ?p) = [''hello'', ''world'']" by code_simp
  have old: "durable example_logger = []" "buffered example_logger = []"
    by (simp_all add: example_logger_def)
  from log_is_durable_at_exit[OF op run]
  have "durable (snd ?run) = [''hello'' @ newline, ''world'' @ newline] \<and> buffered (snd ?run) = []"
    unfolding ls old by simp
  with run show ?thesis by blast
qed

end
